theory Spec2Isabelle
  imports Main
begin

section \<open>Strings and errors\<close>

text \<open>
  Go strings and byte slices are sequences of bytes: \<^typ>\<open>string\<close> (a list of 8-bit
  \<^typ>\<open>char\<close>). The helpers of package \<^verbatim>\<open>strings\<close> that the sources call are written out.
\<close>

definition HasPrefix :: "string \<Rightarrow> string \<Rightarrow> bool" where
  "HasPrefix s p = (length p \<le> length s \<and> take (length p) s = p)"

definition CutPrefix :: "string \<Rightarrow> string \<Rightarrow> string \<times> bool" where
  "CutPrefix s p = (if HasPrefix s p then (drop (length p) s, True) else (s, False))"

text \<open>
  Errors are values. Each constructor stands for one way the sources build an error:
  the sentinels of package \<^verbatim>\<open>io\<close>, the sentinels of \<^verbatim>\<open>internal/conn.go\<close>,
  \<^verbatim>\<open>errors.New(msg)\<close>, the \<^verbatim>\<open>fmt.Errorf\<close> calls that format a value
  (kept with the value they format), and \<^verbatim>\<open>fmt.Errorf("ctx: %w", err)\<close> as
  \<open>Wrap ctx err\<close>. \<open>Transport msg\<close> is any other error the byte stream reports,
  \<open>JSONError\<close> an error of \<^verbatim>\<open>json.Unmarshal\<close>.
\<close>

datatype error =
    io_EOF
  | io_ErrUnexpectedEOF
  | Transport string
  | ErrAccessDenied
  | ErrInvalidPassword
  | ErrTimeout
  | errors_New string
  | MalformedHeaderLine string
  | MalformedContentLength string
  | UnexpectedAuthRequestType string
  | UnexpectedAuthResponseType string
  | JSONError
  | Wrap string error

section \<open>Response (internal/response.go)\<close>

definition ctCommandReply :: string where "ctCommandReply = ''command/reply''"
definition ctAPIResponse :: string where "ctAPIResponse = ''api/response''"
definition ctAuth :: string where "ctAuth = ''auth/request''"
definition ctEventPlain :: string where "ctEventPlain = ''text/event-plain''"
definition ctDisconnect :: string where "ctDisconnect = ''text/disconnect-notice''"
definition ctReject :: string where "ctReject = ''text/rude-rejection''"

lemmas ct_defs =
  ctCommandReply_def ctAPIResponse_def ctAuth_def ctEventPlain_def ctDisconnect_def ctReject_def

record Response =
  ContentType :: string
  Text :: string
  JobUUID :: string
  Body :: string

definition zeroResponse :: Response where
  "zeroResponse = \<lparr>ContentType = [], Text = [], JobUUID = [], Body = []\<rparr>"

definition responseError :: "string \<Rightarrow> error option" where
  "responseError text =
     (case CutPrefix text ''-ERR '' of
        (text', True) \<Rightarrow> Some (errors_New text')
      | (_, False) \<Rightarrow> None)"

definition AsErr :: "Response \<Rightarrow> error option" where
  "AsErr r =
     (if ContentType r = ctDisconnect then Some io_EOF
      else if ContentType r = ctCommandReply then responseError (Text r)
      else if ContentType r = ctAPIResponse then responseError (Body r)
      else None)"

section \<open>Event (event.go)\<close>

text \<open>
  \<^verbatim>\<open>type Event map[string]string\<close>. A Go map value is either \<^verbatim>\<open>nil\<close> or a table;
  reading a missing key, or any key of the nil map, gives the zero value \<^verbatim>\<open>""\<close>.
\<close>

datatype Event = NilEvent | Event "string \<rightharpoonup> string"

fun Get :: "Event \<Rightarrow> string \<Rightarrow> string" where
  "Get NilEvent key = []"
| "Get (Event m) key = (case m key of None \<Rightarrow> [] | Some v \<Rightarrow> v)"

definition contentLengthKey :: string where "contentLengthKey = ''Content-Length''"
definition eventNameKey :: string where "eventNameKey = ''Event-Name''"
definition eventSubclassKey :: string where "eventSubclassKey = ''Event-Subclass''"
definition bodyKey :: string where "bodyKey = ''_body''"

definition Name :: "Event \<Rightarrow> string" where
  "Name e = (let name = Get e eventSubclassKey in
             if name \<noteq> [] then name else Get e eventNameKey)"

definition EventContentType :: "Event \<Rightarrow> string" where
  "EventContentType e = Get e contentLengthKey"

definition EventBody :: "Event \<Rightarrow> string" where
  "EventBody e = Get e bodyKey"

section \<open>Subscribers (subscriber.go)\<close>

text \<open>
  \<^verbatim>\<open>strings.EqualFold\<close> compares under simple case folding. Its only call compares a
  name with \<^verbatim>\<open>"all"\<close>, whose letters fold to no character outside ASCII, so folding the
  ASCII letters byte by byte decides it.
\<close>

definition asciiLower :: "char \<Rightarrow> char" where
  "asciiLower c =
     (case map_of (zip ''ABCDEFGHIJKLMNOPQRSTUVWXYZ'' ''abcdefghijklmnopqrstuvwxyz'') c of
        Some l \<Rightarrow> l
      | None \<Rightarrow> c)"

definition EqualFold :: "string \<Rightarrow> string \<Rightarrow> bool" where
  "EqualFold s t = (map asciiLower s = map asciiLower t)"

text \<open>
  A channel is named by a number; \<open>None\<close> is the nil channel, which \<^verbatim>\<open>newSubscriber\<close>
  refuses, so the channel of a subscriber is a number. The events sent on each channel
  are kept in order of sending; a send that would block has no counterpart here. \<open>Names\<close> is a \<^verbatim>\<open>map[string]struct{}\<close>: a set of
  keys, of which the sources only ask the length and membership (nil and empty agree on
  both).
\<close>

type_synonym chans = "nat \<Rightarrow> Event list"

record subscriber =
  Names :: "string set"
  Send :: nat

definition chan_send :: "nat \<Rightarrow> Event \<Rightarrow> chans \<Rightarrow> chans" where
  "chan_send ch e cs = cs(ch := cs ch @ [e])"

fun newSubscriber_loop :: "nat \<Rightarrow> string set \<Rightarrow> string list \<Rightarrow> subscriber" where
  "newSubscriber_loop send eventNames [] = \<lparr>Names = eventNames, Send = send\<rparr>"
| "newSubscriber_loop send eventNames (name # events) =
     (if name = [] \<or> name = ''*'' \<or> EqualFold name ''all''
      then \<lparr>Names = {}, Send = send\<rparr>
      else newSubscriber_loop send (insert (fst (CutPrefix name ''CUSTOM '')) eventNames) events)"

text \<open>\<open>Inl\<close> is the panic of \<^verbatim>\<open>newSubscriber\<close> on a nil channel.\<close>

definition newSubscriber :: "nat option \<Rightarrow> string list \<Rightarrow> string + subscriber" where
  "newSubscriber send events =
     (case send of
        None \<Rightarrow> Inl ''send channel cannot be nil''
      | Some ch \<Rightarrow>
          if length events = 0 then Inr \<lparr>Names = {}, Send = ch\<rparr>
          else Inr (newSubscriber_loop ch {} events))"

definition Handle :: "subscriber \<Rightarrow> Event \<Rightarrow> chans \<Rightarrow> bool \<times> chans" where
  "Handle s e cs =
     (if Name e \<in> Names s \<or> Names s = {} then (True, chan_send (Send s) e cs)
      else (False, cs))"

section \<open>The subscription command (monitor.go, event.go)\<close>

definition eventNames :: "string set" where
  "eventNames = {
    ''CLONE'', ''CHANNEL_CREATE'', ''CHANNEL_DESTROY'', ''CHANNEL_STATE'',
    ''CHANNEL_CALLSTATE'', ''CHANNEL_ANSWER'', ''CHANNEL_HANGUP'',
    ''CHANNEL_HANGUP_COMPLETE'', ''CHANNEL_EXECUTE'', ''CHANNEL_EXECUTE_COMPLETE'',
    ''CHANNEL_HOLD'', ''CHANNEL_UNHOLD'', ''CHANNEL_BRIDGE'', ''CHANNEL_UNBRIDGE'',
    ''CHANNEL_PROGRESS'', ''CHANNEL_PROGRESS_MEDIA'', ''CHANNEL_OUTGOING'',
    ''CHANNEL_PARK'', ''CHANNEL_UNPARK'', ''CHANNEL_APPLICATION'', ''CHANNEL_ORIGINATE'',
    ''CHANNEL_UUID'', ''API'', ''LOG'', ''INBOUND_CHAN'', ''OUTBOUND_CHAN'', ''STARTUP'',
    ''SHUTDOWN'', ''PUBLISH'', ''UNPUBLISH'', ''TALK'', ''NOTALK'', ''SESSION_CRASH'',
    ''MODULE_LOAD'', ''MODULE_UNLOAD'', ''DTMF'', ''MESSAGE'', ''PRESENCE_IN'',
    ''NOTIFY_IN'', ''PRESENCE_OUT'', ''PRESENCE_PROBE'', ''MESSAGE_WAITING'',
    ''MESSAGE_QUERY'', ''ROSTER'', ''CODEC'', ''BACKGROUND_JOB'', ''DETECTED_SPEECH'',
    ''DETECTED_TONE'', ''PRIVATE_COMMAND'', ''HEARTBEAT'', ''TRAP'', ''ADD_SCHEDULE'',
    ''DEL_SCHEDULE'', ''EXE_SCHEDULE'', ''RE_SCHEDULE'', ''RELOADXML'', ''NOTIFY'',
    ''PHONE_FEATURE'', ''PHONE_FEATURE_SUBSCRIBE'', ''SEND_MESSAGE'', ''RECV_MESSAGE'',
    ''REQUEST_PARAMS'', ''CHANNEL_DATA'', ''GENERAL'', ''COMMAND'', ''SESSION_HEARTBEAT'',
    ''CLIENT_DISCONNECTED'', ''SERVER_DISCONNECTED'', ''SEND_INFO'', ''RECV_INFO'',
    ''RECV_RTCP_MESSAGE'', ''SEND_RTCP_MESSAGE'', ''CALL_SECURE'', ''NAT'',
    ''RECORD_START'', ''RECORD_STOP'', ''PLAYBACK_START'', ''PLAYBACK_STOP'',
    ''CALL_UPDATE'', ''FAILURE'', ''SOCKET_DATA'', ''MEDIA_BUG_START'', ''MEDIA_BUG_STOP'',
    ''CONFERENCE_DATA_QUERY'', ''CONFERENCE_DATA'', ''CALL_SETUP_REQ'',
    ''CALL_SETUP_RESULT'', ''CALL_DETAIL'', ''DEVICE_STATE'', ''TEXT'',
    ''SHUTDOWN_REQUESTED''}"

text \<open>
  The first loop of \<^verbatim>\<open>Monitor.subscribe\<close>: \<open>None\<close> when a subscriber without names makes
  the function return the command for all events, the union of the names otherwise.
\<close>

fun subscribe_events :: "subscriber list \<Rightarrow> string set \<Rightarrow> string set option" where
  "subscribe_events [] events = Some events"
| "subscribe_events (s # ss) events =
     (if Names s = {} then None else subscribe_events ss (events \<union> Names s))"

text \<open>
  The second loop, over the keys of \<open>events\<close> in the order the iteration yields them;
  \<open>cmd\<close> and \<open>custom\<close> are the two string builders.
\<close>

fun subscribe_names :: "string list \<Rightarrow> string \<Rightarrow> string \<Rightarrow> string \<times> string" where
  "subscribe_names [] cmd custom = (cmd, custom)"
| "subscribe_names (name # names) cmd custom =
     (if name \<in> eventNames then subscribe_names names (cmd @ CHR '' '' # name) custom
      else subscribe_names names cmd (custom @ CHR '' '' # name))"

definition cmdSubscribe :: string where "cmdSubscribe = ''event plain''"

text \<open>
  Go leaves the order of a \<^verbatim>\<open>range\<close> over a map open. \<open>keys\<close> is that order: the list
  in which the iteration yields the keys of the set it is given.
\<close>

definition subscribe :: "(string set \<Rightarrow> string list) \<Rightarrow> subscriber list \<Rightarrow> string" where
  "subscribe keys subscribers =
     (case subscribe_events subscribers {} of
        None \<Rightarrow> cmdSubscribe @ '' ALL''
      | Some events \<Rightarrow>
          (case subscribe_names (keys events) cmdSubscribe [] of
             (cmd, custom) \<Rightarrow>
               if length custom > 0
               then (if length cmd > 0 then cmd @ '' '' else cmd) @ ''CUSTOM'' @ custom
               else cmd))"

text \<open>The names a subscriber stores for a list of filter names without a wildcard.\<close>

definition stored_names :: "string list \<Rightarrow> string set" where
  "stored_names events = (\<lambda>name. fst (CutPrefix name ''CUSTOM '')) ` set events"

text \<open>The names of a list, each after one space, as the builders receive them.\<close>

definition spaced :: "string list \<Rightarrow> string" where
  "spaced names = concat (map ((#) CHR '' '') names)"

section \<open>The connection (internal/conn.go)\<close>

text \<open>
  A connection reads from a byte stream through a \<^verbatim>\<open>bufio.Reader\<close> and writes through a
  \<^verbatim>\<open>bufio.Writer\<close>. \<open>rd\<close> holds the bytes the peer sends that no read has consumed yet
  (buffered or still to arrive); once they are used up every read of the stream reports
  \<open>rdErr\<close> (\<^verbatim>\<open>io.EOF\<close> after an orderly close). \<open>wr\<close> holds the bytes flushed to the
  peer; \<open>wrErr\<close> is the error of a stream that refuses writes. A read that would wait
  for the peer forever has no counterpart here: every stream ends.
\<close>

record Conn =
  rd :: string
  rdErr :: error
  wr :: string
  wrErr :: "error option"

definition LF :: char where "LF = CHR 0x0A"
definition CR :: char where "CR = CHR 0x0D"

text \<open>The size of the buffer \<^verbatim>\<open>bufio.NewReader\<close> allocates.\<close>

definition defaultBufSize :: nat where "defaultBufSize = 4096"

text \<open>\<^verbatim>\<open>bytes.IndexByte\<close>: the index of the first occurrence, or \<open>-1\<close>.\<close>

definition IndexByte :: "string \<Rightarrow> char \<Rightarrow> int" where
  "IndexByte s b = (if b \<in> set s then int (length (takeWhile (\<lambda>x. x \<noteq> b) s)) else - 1)"

text \<open>
  The error result of \<^verbatim>\<open>ReadSlice\<close>: nil, \<^verbatim>\<open>bufio.ErrBufferFull\<close>, or the error of the
  stream (a network connection, which never reports \<^verbatim>\<open>ErrBufferFull\<close> itself).
\<close>

datatype slice_error = NoError | ErrBufferFull | StreamError error

text \<open>
  \<^verbatim>\<open>bufio.Reader.ReadSlice('\n')\<close>: the bytes up to and including the first line feed
  when the buffer can hold them; all that is left, with the error of the stream, when the
  stream ends before the buffer is full; the full buffer with \<^verbatim>\<open>ErrBufferFull\<close> otherwise.
\<close>

definition ReadSlice :: "Conn \<Rightarrow> (string \<times> slice_error) \<times> Conn" where
  "ReadSlice c =
     (let buf = take defaultBufSize (rd c); i = IndexByte buf LF in
      if i \<ge> 0 then ((take (nat i + 1) buf, NoError), c\<lparr>rd := drop (nat i + 1) (rd c)\<rparr>)
      else if length (rd c) < defaultBufSize
        then ((rd c, StreamError (rdErr c)), c\<lparr>rd := []\<rparr>)
      else ((buf, ErrBufferFull), c\<lparr>rd := drop defaultBufSize (rd c)\<rparr>))"

text \<open>
  \<^verbatim>\<open>bufio.Reader.ReadLine\<close>, returning \<open>(line, isPrefix, err)\<close>. On a full buffer that ends
  in a carriage return the byte is put back for the next call.
\<close>

definition ReadLine :: "Conn \<Rightarrow> (string \<times> bool \<times> error option) \<times> Conn" where
  "ReadLine c =
     (case ReadSlice c of
        ((line, err), c') \<Rightarrow>
          if err = ErrBufferFull then
            (if length line > 0 \<and> last line = CR
             then ((butlast line, True, None), c'\<lparr>rd := CR # rd c'\<rparr>)
             else ((line, True, None), c'))
          else if length line = 0 then
            ((line, False, case err of StreamError e \<Rightarrow> Some e | _ \<Rightarrow> None), c')
          else if last line = LF then
            (let n = (if length line > 1 \<and> line ! (length line - 2) = CR then 2 else 1)
             in ((take (length line - n) line, False, None), c'))
          else ((line, False, None), c'))"

text \<open>
  In \<^verbatim>\<open>readLine\<close> the result \<^verbatim>\<open>more\<close> of \<^verbatim>\<open>ReadLine\<close> is written \<open>isPrefix\<close>, the name
  \<^verbatim>\<open>bufio\<close> gives it. \<open>fullLine\<close> is a slice that starts as nil (\<open>None\<close>);
  \<^verbatim>\<open>append(fullLine, line...)\<close> leaves a nil slice nil when \<open>line\<close> is empty.
\<close>

fun append_line :: "string option \<Rightarrow> string \<Rightarrow> string option" where
  "append_line None line = (if line = [] then None else Some line)"
| "append_line (Some fullLine) line = Some (fullLine @ line)"

fun bytes_of :: "string option \<Rightarrow> string" where
  "bytes_of None = []"
| "bytes_of (Some b) = b"

lemma IndexByte_nonneg: "0 \<le> IndexByte s b \<longleftrightarrow> b \<in> set s"
  by (simp add: IndexByte_def)

lemma length_takeWhile_neq: "b \<in> set s \<Longrightarrow> length (takeWhile (\<lambda>x. x \<noteq> b) s) < length s"
  by (induction s) auto

lemma IndexByte_less: "b \<in> set s \<Longrightarrow> nat (IndexByte s b) < length s"
  by (simp add: IndexByte_def length_takeWhile_neq)

lemma ReadSlice_NoError:
  assumes "ReadSlice c = ((line, NoError), c')"
  shows "rd c = line @ rd c'" and "line \<noteq> []" and "length line \<le> defaultBufSize"
proof -
  let ?buf = "take defaultBufSize (rd c)"
  let ?i = "nat (IndexByte ?buf LF)"
  from assms have found: "LF \<in> set ?buf"
    by (auto simp: ReadSlice_def Let_def IndexByte_nonneg split: if_splits)
  with assms have line: "line = take (?i + 1) ?buf" and c': "c' = c\<lparr>rd := drop (?i + 1) (rd c)\<rparr>"
    by (auto simp: ReadSlice_def Let_def IndexByte_nonneg split: if_splits)
  from found have "?i < length ?buf" by (rule IndexByte_less)
  then have i: "?i + 1 \<le> defaultBufSize" "?i + 1 \<le> length (rd c)" by simp_all
  then have l: "line = take (?i + 1) (rd c)"
    using line by (simp add: min_def)
  with c' show "rd c = line @ rd c'" by simp
  from l i have len: "length line = ?i + 1" by simp
  then show "line \<noteq> []" by auto
  from len i show "length line \<le> defaultBufSize" by simp
qed

lemma ReadSlice_ErrBufferFull:
  assumes "ReadSlice c = ((line, ErrBufferFull), c')"
  shows "rd c = line @ rd c'" and "length line = defaultBufSize"
  using assms by (auto simp: ReadSlice_def Let_def split: if_splits)

lemma ReadSlice_StreamError:
  assumes "ReadSlice c = ((line, StreamError e), c')"
  shows "rd c = line" and "rd c' = []" and "e = rdErr c"
  using assms by (auto simp: ReadSlice_def Let_def split: if_splits)

lemma ReadLine_more_consumes:
  assumes "ReadLine c = ((line, True, err), c')"
  shows "length (rd c') < length (rd c)"
proof -
  obtain l e c1 where rs: "ReadSlice c = ((l, e), c1)"
    by (metis surj_pair)
  with assms have e: "e = ErrBufferFull"
    by (auto simp: ReadLine_def Let_def split: if_splits)
  from rs e have "rd c = l @ rd c1" "length l = defaultBufSize"
    by (auto dest: ReadSlice_ErrBufferFull)
  then have "length (rd c) = 4096 + length (rd c1)"
    by (simp add: defaultBufSize_def)
  moreover from assms rs e have "length (rd c') \<le> Suc (length (rd c1))"
    by (auto simp: ReadLine_def split: if_splits)
  ultimately show ?thesis by simp
qed

lemma ReadLine_le:
  assumes "ReadLine c = (r, c')"
  shows "length (rd c') \<le> length (rd c)"
proof -
  obtain line isPrefix err where r: "r = (line, isPrefix, err)"
    by (cases r) auto
  show ?thesis
  proof (cases isPrefix)
    case True
    with assms r have "ReadLine c = ((line, True, err), c')" by simp
    then show ?thesis by (auto dest: ReadLine_more_consumes)
  next
    case False
    obtain l e c1 where rs: "ReadSlice c = ((l, e), c1)"
      by (metis surj_pair)
    with assms False r have "c' = c1"
      by (auto simp: ReadLine_def Let_def split: if_splits)
    moreover have "length (rd c1) \<le> length (rd c)"
    proof (cases e)
      case NoError
      with rs show ?thesis by (auto dest: ReadSlice_NoError(1))
    next
      case ErrBufferFull
      with rs show ?thesis by (auto dest: ReadSlice_ErrBufferFull(1))
    next
      case (StreamError x)
      with rs show ?thesis by (auto dest: ReadSlice_StreamError(2))
    qed
    ultimately show ?thesis by simp
  qed
qed

lemma ReadLine_line_consumes:
  assumes "ReadLine c = ((line, False, None), c')"
  shows "length (rd c') < length (rd c)"
proof -
  obtain l e c1 where rs: "ReadSlice c = ((l, e), c1)"
    by (metis surj_pair)
  with assms have c': "c' = c1" and e: "e \<noteq> ErrBufferFull"
    by (auto simp: ReadLine_def Let_def split: if_splits)
  show ?thesis
  proof (cases e)
    case NoError
    with rs have "rd c = l @ rd c1" "l \<noteq> []" by (auto dest: ReadSlice_NoError)
    then have "length (rd c1) < length (rd c)" by simp
    with c' show ?thesis by simp
  next
    case ErrBufferFull
    with e show ?thesis by simp
  next
    case (StreamError x)
    with rs have l: "rd c = l" "rd c1 = []" by (auto dest: ReadSlice_StreamError)
    from assms rs StreamError have "l \<noteq> []"
      by (auto simp: ReadLine_def Let_def split: if_splits)
    with l c' show ?thesis by simp
  qed
qed

function readLine_loop :: "string option \<Rightarrow> Conn \<Rightarrow> (string \<times> error option) \<times> Conn" where
  "readLine_loop fullLine c =
     (case ReadLine c of
        ((line, isPrefix, err), c') \<Rightarrow>
          if err \<noteq> None then (([], err), c')
          else if fullLine = None \<and> \<not> isPrefix then ((line, None), c')
          else
            (let fullLine' = append_line fullLine line
             in if \<not> isPrefix then ((bytes_of fullLine', None), c')
                else readLine_loop fullLine' c'))"
  by pat_completeness auto
termination
  by (relation "measure (\<lambda>(fullLine, c). length (rd c))")
    (auto dest: ReadLine_more_consumes [OF sym])

declare readLine_loop.simps [simp del]

definition readLine :: "Conn \<Rightarrow> (string \<times> error option) \<times> Conn" where
  "readLine c = readLine_loop None c"

fun trimLeft :: "string \<Rightarrow> string" where
  "trimLeft [] = []"
| "trimLeft (b # bs) = (if b \<noteq> CHR '' '' \<and> b \<noteq> CHR 0x09 then b # bs else trimLeft bs)"

text \<open>
  \<^verbatim>\<open>strconv.Atoi\<close> for a 64-bit \<^verbatim>\<open>int\<close>: an optional sign and at least one decimal digit,
  nothing else, and a value in range; \<open>None\<close> is its error.
\<close>

definition isDigit :: "char \<Rightarrow> bool" where
  "isDigit ch = (ch \<in> set ''0123456789'')"

definition digit :: "char \<Rightarrow> int" where
  "digit ch = int (length (takeWhile (\<lambda>d. d \<noteq> ch) ''0123456789''))"

definition Atoi :: "string \<Rightarrow> int option" where
  "Atoi s =
     (let neg = (s \<noteq> [] \<and> hd s = CHR ''-'');
          ds = (if s \<noteq> [] \<and> (hd s = CHR ''-'' \<or> hd s = CHR ''+'') then tl s else s)
      in if ds = [] \<or> \<not> list_all isDigit ds then None
         else
           (let n = foldl (\<lambda>a d. 10 * a + digit d) 0 ds
            in if neg then (if n \<le> 2 ^ 63 then Some (- n) else None)
               else (if n < 2 ^ 63 then Some n else None)))"

text \<open>
  \<^verbatim>\<open>io.ReadFull(c.r, body)\<close> with \<open>len(body) = n\<close>: exactly \<open>n\<close> bytes, or the error of a
  stream that ends before them (\<^verbatim>\<open>io.ErrUnexpectedEOF\<close> when it ends in \<^verbatim>\<open>io.EOF\<close> after some
  but not all of them).
\<close>

definition ReadFull :: "Conn \<Rightarrow> nat \<Rightarrow> (string \<times> error option) \<times> Conn" where
  "ReadFull c n =
     (if n \<le> length (rd c) then ((take n (rd c), None), c\<lparr>rd := drop n (rd c)\<rparr>)
      else ((rd c, Some (if rd c \<noteq> [] \<and> rdErr c = io_EOF then io_ErrUnexpectedEOF
                         else rdErr c)),
            c\<lparr>rd := []\<rparr>))"

text \<open>
  A call either returns its results or panics; a panic unwinds through every caller, none
  of which recovers.
\<close>

datatype 'a outcome = Panics string | Returns 'a

text \<open>
  \<^verbatim>\<open>make([]byte, n)\<close> panics when \<open>n\<close> bytes are more than the runtime can ever allocate:
  \<^verbatim>\<open>maxAlloc\<close>, which is \<open>2^48\<close> on the 64-bit platforms that give \<^verbatim>\<open>int\<close> the range
  \<open>Atoi\<close> has here. Up to that limit the allocation is taken to succeed, as it does on
  a machine with the memory to spare.
\<close>

definition maxAlloc :: nat where "maxAlloc = 2 ^ 48"

definition make_bytes :: "nat \<Rightarrow> unit outcome" where
  "make_bytes n =
     (if n > maxAlloc then Panics ''runtime error: makeslice: len out of range''
      else Returns ())"

text \<open>The part of \<^verbatim>\<open>Conn.Read\<close> after the header loop.\<close>

definition Read_body ::
  "Response \<Rightarrow> int \<Rightarrow> Conn \<Rightarrow> (Response \<times> error option) outcome \<times> Conn" where
  "Read_body resp contentLength c =
     (if contentLength > 0 then
        (case make_bytes (nat contentLength) of
           Panics p \<Rightarrow> (Panics p, c)
         | Returns _ \<Rightarrow>
             (case ReadFull c (nat contentLength) of
                ((body, Some err), c') \<Rightarrow>
                  (Returns (resp, Some (Wrap ''failed to read response body'' err)), c')
              | ((body, None), c') \<Rightarrow> (Returns (resp\<lparr>Body := body\<rparr>, None), c')))
      else (Returns (resp, None), c))"

lemma readLine_loop_le:
  "readLine_loop fullLine c = (r, c') \<Longrightarrow> length (rd c') \<le> length (rd c)"
proof (induction fullLine c arbitrary: r c' rule: readLine_loop.induct)
  case (1 fullLine c)
  obtain line isPrefix err c1 where rl: "ReadLine c = ((line, isPrefix, err), c1)"
    by (metis prod_cases3 surj_pair)
  then have le1: "length (rd c1) \<le> length (rd c)"
    by (rule ReadLine_le)
  show ?case
  proof (cases "err = None \<and> isPrefix")
    case True
    with rl "1.prems" have "readLine_loop (append_line fullLine line) c1 = (r, c')"
      by (subst (asm) readLine_loop.simps) (simp add: Let_def)
    with "1.IH" [OF rl [symmetric] refl refl _ _ refl] True rl
    have "length (rd c') \<le> length (rd c1)" by simp
    with le1 show ?thesis by simp
  next
    case False
    with rl "1.prems" have "c' = c1"
      by (subst (asm) readLine_loop.simps) (auto simp: Let_def split: if_splits)
    with le1 show ?thesis by simp
  qed
qed

lemma readLine_loop_consumes:
  "readLine_loop fullLine c = ((line, None), c') \<Longrightarrow> length (rd c') < length (rd c)"
proof (induction fullLine c arbitrary: line c' rule: readLine_loop.induct)
  case (1 fullLine c)
  obtain l isPrefix err c1 where rl: "ReadLine c = ((l, isPrefix, err), c1)"
    by (metis prod_cases3 surj_pair)
  from rl "1.prems" have err: "err = None"
    by (subst (asm) readLine_loop.simps) (auto split: if_splits)
  show ?case
  proof (cases isPrefix)
    case True
    with rl err "1.prems" have "readLine_loop (append_line fullLine l) c1 = ((line, None), c')"
      by (subst (asm) readLine_loop.simps) (simp add: Let_def)
    then have "length (rd c') \<le> length (rd c1)" by (rule readLine_loop_le)
    moreover have "length (rd c1) < length (rd c)"
      using rl True by (auto dest: ReadLine_more_consumes)
    ultimately show ?thesis by simp
  next
    case False
    with rl err "1.prems" have "c' = c1"
      by (subst (asm) readLine_loop.simps) (auto simp: Let_def split: if_splits)
    moreover have "length (rd c1) < length (rd c)"
      using rl False err by (auto dest: ReadLine_line_consumes)
    ultimately show ?thesis by simp
  qed
qed

lemma readLine_consumes:
  "readLine c = ((line, None), c') \<Longrightarrow> length (rd c') < length (rd c)"
  unfolding readLine_def by (rule readLine_loop_consumes)

text \<open>
  The header loop of \<^verbatim>\<open>Conn.Read\<close>, entered with the variables \<open>resp\<close> and
  \<open>contentLength\<close>. \<open>Inl (resp, err)\<close> is a \<^verbatim>\<open>return resp, err\<close> inside the loop;
  \<open>Inr (resp, contentLength)\<close> is the \<^verbatim>\<open>break\<close>, with the variables as the loop leaves them.
\<close>

function Read_loop ::
  "Response \<Rightarrow> int \<Rightarrow> Conn \<Rightarrow> ((Response \<times> error) + (Response \<times> int)) \<times> Conn" where
  "Read_loop resp contentLength c =
     (case readLine c of
        ((line, Some err), c') \<Rightarrow> (Inl (resp, err), c')
      | ((line, None), c') \<Rightarrow>
          if length line = 0 then
            (if ContentType resp = [] then Read_loop resp contentLength c'
             else (Inr (resp, contentLength), c'))
          else
            (let idx = IndexByte line CHR '':'' in
             if idx \<le> 0 then (Inl (resp, MalformedHeaderLine line), c')
             else
               (let key = take (nat idx) line; value = trimLeft (drop (nat idx + 1) line) in
                if key = ''Content-Type''
                  then Read_loop (resp\<lparr>ContentType := value\<rparr>) contentLength c'
                else if key = ''Reply-Text''
                  then Read_loop (resp\<lparr>Text := value\<rparr>) contentLength c'
                else if key = ''Job-UUID''
                  then Read_loop (resp\<lparr>JobUUID := value\<rparr>) contentLength c'
                else if key = ''Content-Length'' then
                  (case Atoi value of
                     None \<Rightarrow> (Inl (resp, MalformedContentLength value), c')
                   | Some n \<Rightarrow> Read_loop resp n c')
                else Read_loop resp contentLength c')))"
  by pat_completeness auto
termination
  by (relation "measure (\<lambda>(resp, contentLength, c). length (rd c))")
    (auto dest: readLine_consumes [OF sym])

declare Read_loop.simps [simp del]

text \<open>\<^verbatim>\<open>Conn.Read\<close> from the loop state \<open>(resp, contentLength)\<close> on.\<close>

definition Read_from ::
  "Response \<Rightarrow> int \<Rightarrow> Conn \<Rightarrow> (Response \<times> error option) outcome \<times> Conn" where
  "Read_from resp contentLength c =
     (case Read_loop resp contentLength c of
        (Inl (resp', err), c') \<Rightarrow> (Returns (resp', Some err), c')
      | (Inr (resp', contentLength'), c') \<Rightarrow> Read_body resp' contentLength' c')"

definition Read :: "Conn \<Rightarrow> (Response \<times> error option) outcome \<times> Conn" where
  "Read c = Read_from zeroResponse 0 c"

text \<open>
  \<^verbatim>\<open>Conn.Write\<close>: the command and a blank line, flushed; a stream that refuses the write
  takes no byte.
\<close>

definition Write :: "string \<Rightarrow> Conn \<Rightarrow> error option \<times> Conn" where
  "Write cmd c =
     (if cmd = [] then (None, c)
      else
        (case wrErr c of
           Some err \<Rightarrow> (Some (Wrap ''send'' err), c)
         | None \<Rightarrow> (None, c\<lparr>wr := wr c @ cmd @ [LF, LF]\<rparr>)))"

definition Send :: "string \<Rightarrow> Conn \<Rightarrow> (Response \<times> error option) outcome \<times> Conn" where
  "Send cmd c =
     (case Write cmd c of
        (Some err, c') \<Rightarrow> (Returns (zeroResponse, Some (Wrap ''send'' err)), c')
      | (None, c') \<Rightarrow>
          (case Read c' of
             (Panics p, c'') \<Rightarrow> (Panics p, c'')
           | (Returns (resp, Some err), c'') \<Rightarrow>
               (Returns (zeroResponse, Some (Wrap ''read'' err)), c'')
           | (Returns (resp, None), c'') \<Rightarrow> (Returns (resp, None), c'')))"

definition auth :: "string \<Rightarrow> Conn \<Rightarrow> error option outcome \<times> Conn" where
  "auth password c =
     (case Read c of
        (Panics p, c1) \<Rightarrow> (Panics p, c1)
      | (Returns (resp, Some err), c1) \<Rightarrow> (Returns (Some (Wrap ''read server request'' err)), c1)
      | (Returns (resp, None), c1) \<Rightarrow>
          if ContentType resp = ctReject then (Returns (Some ErrAccessDenied), c1)
          else if ContentType resp = ctDisconnect
            then (Returns (Some (Wrap ''server disconnect'' io_EOF)), c1)
          else if ContentType resp = ctAuth then
            (case Send (''auth '' @ password) c1 of
               (Panics p, c2) \<Rightarrow> (Panics p, c2)
             | (Returns (resp, Some err), c2) \<Rightarrow>
                 (Returns (Some (Wrap ''read auth response'' err)), c2)
             | (Returns (resp, None), c2) \<Rightarrow>
                 if ContentType resp \<noteq> ctCommandReply
                 then (Returns (Some (UnexpectedAuthResponseType (ContentType resp))), c2)
                 else if \<not> HasPrefix (Text resp) ''+OK''
                   then (Returns (Some ErrInvalidPassword), c2)
                 else (Returns None, c2))
          else (Returns (Some (UnexpectedAuthRequestType (ContentType resp))), c1))"

section \<open>Lines\<close>

text \<open>A line without its line feed loses one trailing carriage return.\<close>

definition dropCR :: "string \<Rightarrow> string" where
  "dropCR l = (if l \<noteq> [] \<and> last l = CR then butlast l else l)"

lemma IndexByte_append_found:
  "b \<notin> set l \<Longrightarrow> IndexByte (l @ b # r) b = int (length l)"
proof -
  assume "b \<notin> set l"
  then have "takeWhile (\<lambda>x. x \<noteq> b) (l @ b # r) = l"
    by (induction l) auto
  then show ?thesis by (simp add: IndexByte_def)
qed

lemma LF_neq_CR: "LF \<noteq> CR"
  by (simp add: LF_def CR_def)

lemma ReadSlice_line:
  assumes "LF \<notin> set l" and "length l < defaultBufSize" and "rd c = l @ LF # rest"
  shows "ReadSlice c = ((l @ [LF], NoError), c\<lparr>rd := rest\<rparr>)"
proof -
  have buf: "take defaultBufSize (rd c) = l @ LF # take (defaultBufSize - Suc (length l)) rest"
    using assms(2,3) by (simp add: take_Cons')
  have "IndexByte (take defaultBufSize (rd c)) LF = int (length l)"
    unfolding buf using assms(1) by (rule IndexByte_append_found)
  then show ?thesis
    using assms(3) buf by (simp add: ReadSlice_def Let_def)
qed

lemma ReadLine_line:
  assumes "LF \<notin> set l" and "length l < defaultBufSize" and "rd c = l @ LF # rest"
  shows "ReadLine c = ((dropCR l, False, None), c\<lparr>rd := rest\<rparr>)"
proof (cases "l = []")
  case True
  with assms show ?thesis
    by (simp add: ReadLine_def ReadSlice_line [OF assms] dropCR_def)
next
  case False
  then have nth: "(l @ [LF]) ! (length l - Suc 0) = last l"
    by (simp add: nth_append last_conv_nth)
  from False have "length l > 0" by simp
  then have len: "Suc (length l) - 2 = length l - 1" by simp
  show ?thesis
    using False nth
    by (simp add: ReadLine_def ReadSlice_line [OF assms] dropCR_def len butlast_conv_take)
qed

lemma ReadSlice_full:
  assumes "LF \<notin> set l" and "defaultBufSize \<le> length l" and "rd c = l @ LF # rest"
  shows "ReadSlice c =
    ((take defaultBufSize l, ErrBufferFull), c\<lparr>rd := drop defaultBufSize l @ LF # rest\<rparr>)"
proof -
  have buf: "take defaultBufSize (rd c) = take defaultBufSize l"
    using assms(2,3) by simp
  have "LF \<notin> set (take defaultBufSize l)"
    using assms(1) by (auto dest: in_set_takeD)
  then have "IndexByte (take defaultBufSize (rd c)) LF = - 1"
    unfolding buf by (simp add: IndexByte_def)
  then show ?thesis
    using assms(2,3) buf by (simp add: ReadSlice_def Let_def)
qed

lemma ReadLine_full:
  assumes "LF \<notin> set l" and "defaultBufSize \<le> length l" and "rd c = l @ LF # rest"
  shows "\<exists>k. 0 < k \<and> k \<le> length l \<and> (k < length l \<or> last l \<noteq> CR) \<and>
    ReadLine c = ((take k l, True, None), c\<lparr>rd := drop k l @ LF # rest\<rparr>)"
proof -
  let ?n = defaultBufSize
  have n: "?n = Suc (?n - 1)" by (simp add: defaultBufSize_def)
  have n1: "0 < ?n - 1" by (simp add: defaultBufSize_def)
  have ne: "take ?n l \<noteq> []" using assms(2) n by (cases l) auto
  have lst: "last (take ?n l) = l ! (?n - 1)"
    using assms(2) ne by (simp add: last_conv_nth min_def)
  show ?thesis
  proof (cases "l ! (?n - 1) = CR")
    case True
    have bl: "butlast (take ?n l) = take (?n - 1) l"
      using assms(2) by (simp add: butlast_take)
    have "drop (?n - 1) l = l ! (?n - 1) # drop (Suc (?n - 1)) l"
      using assms(2) n1 by (intro Cons_nth_drop_Suc [symmetric]) simp
    with True n have dr: "CR # drop ?n l = drop (?n - 1) l" by simp
    have "ReadLine c = ((take (?n - 1) l, True, None), c\<lparr>rd := drop (?n - 1) l @ LF # rest\<rparr>)"
      using ne lst True bl dr [symmetric]
      by (simp add: ReadLine_def ReadSlice_full [OF assms])
    moreover have "?n - 1 < length l" using assms(2) n by linarith
    ultimately show ?thesis using n1 by (intro exI [of _ "?n - 1"]) simp
  next
    case False
    have rl: "ReadLine c = ((take ?n l, True, None), c\<lparr>rd := drop ?n l @ LF # rest\<rparr>)"
      using ne lst False by (simp add: ReadLine_def ReadSlice_full [OF assms])
    have "?n < length l \<or> last l \<noteq> CR"
    proof (cases "?n < length l")
      case True
      then show ?thesis by simp
    next
      case False
      with assms(2) have "length l = ?n" by simp
      then have "last l = l ! (?n - 1)"
        using ne by (simp add: last_conv_nth)
      with \<open>l ! (?n - 1) \<noteq> CR\<close> show ?thesis by simp
    qed
    with rl assms(2) n show ?thesis
      by (intro exI [of _ ?n]) (simp add: defaultBufSize_def)
  qed
qed

lemma dropCR_split:
  assumes "k \<le> length l" and "k < length l \<or> last l \<noteq> CR"
  shows "take k l @ dropCR (drop k l) = dropCR l"
proof (cases "k < length l")
  case True
  then have ne: "drop k l \<noteq> []" "l \<noteq> []" by auto
  have "last (drop k l) = last l" using True by (simp add: last_drop)
  moreover have "take k l @ butlast (drop k l) = butlast l"
    using True by (metis append_take_drop_id butlast_append ne(1))
  ultimately show ?thesis using ne by (simp add: dropCR_def)
next
  case False
  with assms show ?thesis by (simp add: dropCR_def)
qed

lemma readLine_loop_line:
  "LF \<notin> set l \<Longrightarrow> rd c = l @ LF # rest \<Longrightarrow>
   readLine_loop fullLine c = ((bytes_of fullLine @ dropCR l, None), c\<lparr>rd := rest\<rparr>)"
proof (induction "length l" arbitrary: l c fullLine rule: less_induct)
  case less
  show ?case
  proof (cases "length l < defaultBufSize")
    case True
    have "ReadLine c = ((dropCR l, False, None), c\<lparr>rd := rest\<rparr>)"
      using less.prems(1) True less.prems(2) by (rule ReadLine_line)
    then show ?thesis
      by (subst readLine_loop.simps) (cases fullLine; simp)
  next
    case False
    then have "defaultBufSize \<le> length l" by simp
    from ReadLine_full [OF less.prems(1) this less.prems(2)]
    obtain k where k: "0 < k" "k \<le> length l" "k < length l \<or> last l \<noteq> CR"
      and rl: "ReadLine c = ((take k l, True, None), c\<lparr>rd := drop k l @ LF # rest\<rparr>)"
      by blast
    from k have tk: "take k l \<noteq> []" by auto
    have "LF \<notin> set (drop k l)" using less.prems(1) by (auto dest: in_set_dropD)
    moreover have "length (drop k l) < length l" using k by simp
    ultimately have IH: "readLine_loop (Some (bytes_of fullLine @ take k l))
        (c\<lparr>rd := drop k l @ LF # rest\<rparr>) =
      (((bytes_of fullLine @ take k l) @ dropCR (drop k l), None), c\<lparr>rd := rest\<rparr>)"
      using less.hyps [of "drop k l" "c\<lparr>rd := drop k l @ LF # rest\<rparr>"
          "Some (bytes_of fullLine @ take k l)"]
      by simp
    have ap: "append_line fullLine (take k l) = Some (bytes_of fullLine @ take k l)"
      using tk by (cases fullLine) simp_all
    show ?thesis
      by (subst readLine_loop.simps) (simp add: rl ap IH dropCR_split [OF k(2,3)])
  qed
qed

lemma readLine_line:
  "LF \<notin> set l \<Longrightarrow> rd c = l @ LF # rest \<Longrightarrow>
   readLine c = ((dropCR l, None), c\<lparr>rd := rest\<rparr>)"
  by (simp add: readLine_def readLine_loop_line)

lemma split_at_LF:
  "LF \<in> set s \<Longrightarrow>
   s = takeWhile (\<lambda>b. b \<noteq> LF) s @ LF # tl (dropWhile (\<lambda>b. b \<noteq> LF) s)"
  by (induction s) auto

lemma readLine_next:
  assumes "LF \<in> set (rd c)"
  shows "readLine c =
    ((dropCR (takeWhile (\<lambda>b. b \<noteq> LF) (rd c)), None),
     c\<lparr>rd := tl (dropWhile (\<lambda>b. b \<noteq> LF) (rd c))\<rparr>)"
proof -
  have "LF \<notin> set (takeWhile (\<lambda>b. b \<noteq> LF) (rd c))"
    by (auto dest: set_takeWhileD)
  then show ?thesis
    using split_at_LF [OF assms] by (rule readLine_line)
qed

lemma readLine_end:
  assumes "rd c = []"
  shows "readLine c = (([], Some (rdErr c)), c)"
  using assms
  by (subst readLine_def, subst readLine_loop.simps)
    (simp add: ReadLine_def ReadSlice_def Let_def IndexByte_def defaultBufSize_def)

text \<open>
  The last bytes of a stream that ends without a line feed are a line too, with a
  trailing carriage return kept, when they do not fill the buffer.
\<close>

lemma readLine_unterminated:
  assumes "LF \<notin> set (rd c)" and "rd c \<noteq> []" and "length (rd c) < defaultBufSize"
  shows "readLine c = ((rd c, None), c\<lparr>rd := []\<rparr>)"
proof -
  have "LF \<notin> set (take defaultBufSize (rd c))"
    using assms(1) by (auto dest: in_set_takeD)
  then have "ReadSlice c = ((rd c, StreamError (rdErr c)), c\<lparr>rd := []\<rparr>)"
    using assms(3) by (simp add: ReadSlice_def Let_def IndexByte_def)
  moreover have "last (rd c) \<noteq> LF"
    using assms(1,2) last_in_set by metis
  ultimately have "ReadLine c = ((rd c, False, None), c\<lparr>rd := []\<rparr>)"
    using assms(2) by (simp add: ReadLine_def)
  then show ?thesis
    by (subst readLine_def, subst readLine_loop.simps) simp
qed

section \<open>Steps of the header loop\<close>

lemma Read_loop_error:
  "readLine c = ((line, Some err), c') \<Longrightarrow> Read_loop resp n c = (Inl (resp, err), c')"
  by (subst Read_loop.simps) simp

lemma Read_loop_blank:
  "readLine c = (([], None), c') \<Longrightarrow>
   Read_loop resp n c =
     (if ContentType resp = [] then Read_loop resp n c' else (Inr (resp, n), c'))"
  by (subst Read_loop.simps) simp

text \<open>What one header line does to the loop, as the body of the loop has it.\<close>

definition header_step ::
  "string \<Rightarrow> Response \<Rightarrow> int \<Rightarrow> Conn \<Rightarrow> ((Response \<times> error) + (Response \<times> int)) \<times> Conn" where
  "header_step line resp n c' =
     (let idx = IndexByte line CHR '':'' in
      if idx \<le> 0 then (Inl (resp, MalformedHeaderLine line), c')
      else
        (let key = take (nat idx) line; value = trimLeft (drop (nat idx + 1) line) in
         if key = ''Content-Type'' then Read_loop (resp\<lparr>ContentType := value\<rparr>) n c'
         else if key = ''Reply-Text'' then Read_loop (resp\<lparr>Text := value\<rparr>) n c'
         else if key = ''Job-UUID'' then Read_loop (resp\<lparr>JobUUID := value\<rparr>) n c'
         else if key = ''Content-Length'' then
           (case Atoi value of
              None \<Rightarrow> (Inl (resp, MalformedContentLength value), c')
            | Some n' \<Rightarrow> Read_loop resp n' c')
         else Read_loop resp n c'))"

lemma Read_loop_header:
  "readLine c = ((line, None), c') \<Longrightarrow> line \<noteq> [] \<Longrightarrow>
   Read_loop resp n c = header_step line resp n c'"
  by (subst Read_loop.simps) (simp add: header_step_def)

lemma Read_loop_next:
  assumes "LF \<in> set (rd c)"
  shows "Read_loop resp n c =
    (let line = dropCR (takeWhile (\<lambda>b. b \<noteq> LF) (rd c));
         c' = c\<lparr>rd := tl (dropWhile (\<lambda>b. b \<noteq> LF) (rd c))\<rparr>
     in if line = [] then
          (if ContentType resp = [] then Read_loop resp n c' else (Inr (resp, n), c'))
        else header_step line resp n c')"
  using readLine_next [OF assms]
  by (cases "dropCR (takeWhile (\<lambda>b. b \<noteq> LF) (rd c)) = []")
    (simp_all add: Read_loop_blank Read_loop_header Let_def)

lemma Read_loop_end:
  "rd c = [] \<Longrightarrow> Read_loop resp n c = (Inl (resp, rdErr c), c)"
  by (simp add: Read_loop_error [OF readLine_end])

lemmas Read_eval =
  Read_def Read_from_def Read_loop_next Read_loop_end header_step_def Read_body_def ReadFull_def
  make_bytes_def maxAlloc_def
  IndexByte_def dropCR_def LF_def CR_def zeroResponse_def Let_def

lemma readLine_blank:
  assumes "rd c = LF # rest \<or> rd c = CR # LF # rest"
  shows "readLine c = (([], None), c\<lparr>rd := rest\<rparr>)"
proof -
  from assms obtain l where l: "l = [] \<or> l = [CR]" and rd: "rd c = l @ LF # rest"
    by auto
  from l have "LF \<notin> set l" "dropCR l = []"
    by (auto simp: dropCR_def LF_neq_CR)
  with rd show ?thesis
    using readLine_line [of l c rest] by simp
qed

section \<open>What a read leaves unchanged\<close>

lemma ReadLine_frame: "ReadLine c = (r, c') \<Longrightarrow> c' = c\<lparr>rd := rd c'\<rparr>"
  by (auto simp: ReadLine_def ReadSlice_def Let_def split: if_splits prod.splits)

lemma readLine_loop_frame:
  "readLine_loop fullLine c = (r, c') \<Longrightarrow> c' = c\<lparr>rd := rd c'\<rparr>"
proof (induction fullLine c arbitrary: r c' rule: readLine_loop.induct)
  case (1 fullLine c)
  obtain line isPrefix err c1 where rl: "ReadLine c = ((line, isPrefix, err), c1)"
    by (metis prod_cases3 surj_pair)
  then have f1: "c1 = c\<lparr>rd := rd c1\<rparr>"
    by (rule ReadLine_frame)
  show ?case
  proof (cases "err = None \<and> isPrefix")
    case True
    with rl "1.prems" have "readLine_loop (append_line fullLine line) c1 = (r, c')"
      by (subst (asm) readLine_loop.simps) (simp add: Let_def)
    with "1.IH" [OF rl [symmetric] refl refl _ _ refl] True rl
    have "c' = c1\<lparr>rd := rd c'\<rparr>" by simp
    with f1 show ?thesis by (metis Conn.update_convs(1) Conn.surjective)
  next
    case False
    with rl "1.prems" have "c' = c1"
      by (subst (asm) readLine_loop.simps) (auto simp: Let_def split: if_splits)
    with f1 show ?thesis by simp
  qed
qed

lemma readLine_frame: "readLine c = (r, c') \<Longrightarrow> c' = c\<lparr>rd := rd c'\<rparr>"
  unfolding readLine_def by (rule readLine_loop_frame)


lemma Read_loop_keeps:
  "Read_loop resp n c = (res, c') \<Longrightarrow>
   c' = c\<lparr>rd := rd c'\<rparr> \<and> length (rd c') \<le> length (rd c) \<and>
   (case res of
      Inl (resp', err) \<Rightarrow> Body resp' = Body resp
    | Inr (resp', n') \<Rightarrow>
        Body resp' = Body resp \<and> ContentType resp' \<noteq> [] \<and> length (rd c') < length (rd c))"
proof (induction "length (rd c)" arbitrary: resp n c rule: less_induct)
  case less
  obtain line err c1 where rl: "readLine c = ((line, err), c1)"
    by (metis surj_pair)
  then have f1: "c1 = c\<lparr>rd := rd c1\<rparr>" by (rule readLine_frame)
  have le1: "length (rd c1) \<le> length (rd c)"
    using rl unfolding readLine_def by (rule readLine_loop_le)
  show ?case
  proof (cases err)
    case (Some e)
    with rl less.prems have "res = Inl (resp, e)" "c' = c1"
      by (simp_all add: Read_loop_error)
    with f1 le1 show ?thesis by simp
  next
    case None
    with rl have lt1: "length (rd c1) < length (rd c)"
      by (auto dest: readLine_consumes)
    have IH: "c' = c1\<lparr>rd := rd c'\<rparr> \<and> length (rd c') \<le> length (rd c1) \<and>
       (case res of
          Inl (resp', err) \<Rightarrow> Body resp' = Body r
        | Inr (resp', n') \<Rightarrow>
            Body resp' = Body r \<and> ContentType resp' \<noteq> [] \<and> length (rd c') < length (rd c1))"
      if "Read_loop r m c1 = (res, c')" for r m
      using less.hyps [OF lt1 that] .
    have goal: ?thesis if "Read_loop r m c1 = (res, c')" "Body r = Body resp" for r m
    proof -
      from IH [OF that(1)] have a: "c' = c1\<lparr>rd := rd c'\<rparr>"
        and b: "length (rd c') \<le> length (rd c1)"
        and c: "case res of
          Inl (resp', err) \<Rightarrow> Body resp' = Body r
        | Inr (resp', n') \<Rightarrow>
            Body resp' = Body r \<and> ContentType resp' \<noteq> [] \<and> length (rd c') < length (rd c1)"
        by simp_all
      from a f1 have "c' = c\<lparr>rd := rd c'\<rparr>"
        by (metis Conn.update_convs(1) Conn.surjective)
      moreover from b lt1 have "length (rd c') \<le> length (rd c)" by simp
      moreover from c lt1 that(2) have "case res of
          Inl (resp', err) \<Rightarrow> Body resp' = Body resp
        | Inr (resp', n') \<Rightarrow>
            Body resp' = Body resp \<and> ContentType resp' \<noteq> [] \<and> length (rd c') < length (rd c)"
        by (auto split: sum.splits)
      ultimately show ?thesis by simp
    qed
    have stop: ?thesis if "res = Inl (resp, e)" "c' = c1" for e
      using that f1 le1 by simp
    show ?thesis
    proof (cases "line = []")
      case True
      with rl None less.prems have r:
        "(if ContentType resp = [] then Read_loop resp n c1 else (Inr (resp, n), c1)) = (res, c')"
        by (simp add: Read_loop_blank)
      show ?thesis
      proof (cases "ContentType resp = []")
        case True
        with r show ?thesis by (intro goal [of resp n]) simp_all
      next
        case False
        with r have "res = Inr (resp, n)" "c' = c1" by simp_all
        with False f1 lt1 show ?thesis by simp
      qed
    next
      case False
      with rl None less.prems have hs: "header_step line resp n c1 = (res, c')"
        by (simp add: Read_loop_header)
      then have "(\<exists>e. res = Inl (resp, e) \<and> c' = c1) \<or>
          (\<exists>r m. Read_loop r m c1 = (res, c') \<and> Body r = Body resp)"
        unfolding header_step_def Let_def
        by (simp split: if_splits option.splits) force+
      then show ?thesis
        using goal stop by blast
    qed
  qed
qed

lemma Read_body_keeps:
  "Read_body resp n c = (r, c') \<Longrightarrow>
   c' = c\<lparr>rd := rd c'\<rparr> \<and> length (rd c') \<le> length (rd c)"
  by (auto simp: Read_body_def ReadFull_def make_bytes_def split: if_splits)

lemma Read_consumes:
  assumes "Read c = (Returns (resp, None), c')"
  shows "length (rd c') < length (rd c)"
proof -
  obtain res c1 where rl: "Read_loop zeroResponse 0 c = (res, c1)"
    by (metis surj_pair)
  with assms obtain r n where res: "res = Inr (r, n)"
    and rb: "Read_body r n c1 = (Returns (resp, None), c')"
    by (auto simp: Read_def Read_from_def split: sum.splits)
  from Read_loop_keeps [OF rl] res have "length (rd c1) < length (rd c)" by simp
  moreover from Read_body_keeps [OF rb] have "length (rd c') \<le> length (rd c1)" by simp
  ultimately show ?thesis by simp
qed

lemma Read_keeps:
  assumes "Read c = (r, c')"
  shows "c' = c\<lparr>rd := rd c'\<rparr>"
proof -
  obtain res c1 where rl: "Read_loop zeroResponse 0 c = (res, c1)"
    by (metis surj_pair)
  from Read_loop_keeps [OF rl] have c1: "c1 = c\<lparr>rd := rd c1\<rparr>" by simp
  show ?thesis
  proof (cases res)
    case (Inl a)
    with rl assms have "c' = c1" by (auto simp: Read_def Read_from_def split: prod.splits)
    with c1 show ?thesis by simp
  next
    case (Inr b)
    with rl assms have "Read_body (fst b) (snd b) c1 = (r, c')"
      by (auto simp: Read_def Read_from_def split: prod.splits)
    from Read_body_keeps [OF this] have "c' = c1\<lparr>rd := rd c'\<rparr>" by simp
    with c1 show ?thesis by (metis Conn.update_convs(1) Conn.surjective)
  qed
qed

section \<open>Decoding events (event.go, encoding/json)\<close>

text \<open>
  \<^verbatim>\<open>parseEvent\<close> hands the body to \<^verbatim>\<open>json.Unmarshal\<close> with a \<^verbatim>\<open>map[string]string\<close> as
  target. The decoder accepts a text when it is valid JSON and its value is \<^verbatim>\<open>null\<close> or an
  object whose member values are strings or \<^verbatim>\<open>null\<close>; every other text is a syntax error or
  a type error, both \<open>JSONError\<close> here. What follows is that decoder: white space,
  string literals with their escapes, members, the object.
\<close>

definition isSpace :: "char \<Rightarrow> bool" where
  "isSpace ch \<longleftrightarrow> ch = CHR '' '' \<or> ch = CHR 0x09 \<or> ch = CHR 0x0D \<or> ch = CHR 0x0A"

definition skipSpace :: "string \<Rightarrow> string" where
  "skipSpace s = dropWhile isSpace s"

definition hexval :: "char \<Rightarrow> nat option" where
  "hexval ch =
     map_of (zip ''0123456789abcdefABCDEF''
       [0, 1, 2, 3, 4, 5, 6, 7, 8, 9, 10, 11, 12, 13, 14, 15, 10, 11, 12, 13, 14, 15]) ch"

text \<open>\<^verbatim>\<open>getu4\<close>: the number of a \<^verbatim>\<open>\uXXXX\<close> escape at the head of the text.\<close>

definition getu4 :: "string \<Rightarrow> nat option" where
  "getu4 s =
     (case s of
        b # u # h1 # h2 # h3 # h4 # _ \<Rightarrow>
          if b = CHR 0x5C \<and> u = CHR ''u'' then
            (case (hexval h1, hexval h2, hexval h3, hexval h4) of
               (Some x1, Some x2, Some x3, Some x4) \<Rightarrow> Some (((x1 * 16 + x2) * 16 + x3) * 16 + x4)
             | _ \<Rightarrow> None)
          else None
      | _ \<Rightarrow> None)"

text \<open>\<^verbatim>\<open>utf8.EncodeRune\<close>; a surrogate or a number beyond Unicode becomes U+FFFD.\<close>

definition RuneError :: string where
  "RuneError = [CHR 0xEF, CHR 0xBF, CHR 0xBD]"

definition EncodeRune :: "nat \<Rightarrow> string" where
  "EncodeRune r =
     (if r \<le> 0x7F then [char_of r]
      else if r \<le> 0x7FF then [char_of (0xC0 + r div 64), char_of (0x80 + r mod 64)]
      else if r > 0x10FFFF \<or> (0xD800 \<le> r \<and> r \<le> 0xDFFF) then RuneError
      else if r \<le> 0xFFFF then
        [char_of (0xE0 + r div 4096), char_of (0x80 + r div 64 mod 64), char_of (0x80 + r mod 64)]
      else
        [char_of (0xF0 + r div 262144), char_of (0x80 + r div 4096 mod 64),
         char_of (0x80 + r div 64 mod 64), char_of (0x80 + r mod 64)])"

text \<open>
  The length of the well-formed UTF-8 sequence at the head of the text, \<open>0\<close> when there
  is none (\<^verbatim>\<open>utf8.DecodeRune\<close> then answers U+FFFD with size 1).
\<close>

definition between :: "nat \<Rightarrow> char \<Rightarrow> nat \<Rightarrow> bool" where
  "between lo b hi \<longleftrightarrow> lo \<le> of_char b \<and> of_char b \<le> hi"

definition utf8_size :: "string \<Rightarrow> nat" where
  "utf8_size s =
     (case s of
        [] \<Rightarrow> 0
      | b0 # t \<Rightarrow>
          if between 0xC2 b0 0xDF then
            (case t of b1 # _ \<Rightarrow> if between 0x80 b1 0xBF then 2 else 0 | _ \<Rightarrow> 0)
          else if between 0xE0 b0 0xEF then
            (case t of
               b1 # b2 # _ \<Rightarrow>
                 if between (if b0 = CHR 0xE0 then 0xA0 else 0x80) b1
                      (if b0 = CHR 0xED then 0x9F else 0xBF) \<and>
                    between 0x80 b2 0xBF
                 then 3 else 0
             | _ \<Rightarrow> 0)
          else if between 0xF0 b0 0xF4 then
            (case t of
               b1 # b2 # b3 # _ \<Rightarrow>
                 if between (if b0 = CHR 0xF0 then 0x90 else 0x80) b1
                      (if b0 = CHR 0xF4 then 0x8F else 0xBF) \<and>
                    between 0x80 b2 0xBF \<and> between 0x80 b3 0xBF
                 then 4 else 0
             | _ \<Rightarrow> 0)
          else 0)"

text \<open>
  One step inside a string literal, at a byte that is not the closing quote: the bytes it
  adds to the value and the number of bytes of text it uses up, or \<open>None\<close> for a text
  the scanner refuses (a control character, a bad escape). A well-formed UTF-8 sequence is
  copied, a byte that starts none becomes U+FFFD; a \<^verbatim>\<open>\u\<close> escape is encoded as UTF-8, two
  escapes that form a surrogate pair as one character, a lone surrogate as U+FFFD.
\<close>

definition unquote_step :: "string \<Rightarrow> (string \<times> nat) option" where
  "unquote_step s =
     (case s of
        [] \<Rightarrow> None
      | ch # t \<Rightarrow>
          if ch = CHR 0x5C then
            (case t of
               [] \<Rightarrow> None
             | e # _ \<Rightarrow>
                 if e = CHR 0x22 \<or> e = CHR 0x5C \<or> e = CHR ''/'' then Some ([e], 2)
                 else if e = CHR ''b'' then Some ([CHR 0x08], 2)
                 else if e = CHR ''f'' then Some ([CHR 0x0C], 2)
                 else if e = CHR ''n'' then Some ([CHR 0x0A], 2)
                 else if e = CHR ''r'' then Some ([CHR 0x0D], 2)
                 else if e = CHR ''t'' then Some ([CHR 0x09], 2)
                 else if e = CHR ''u'' then
                   (case getu4 s of
                      None \<Rightarrow> None
                    | Some rr \<Rightarrow>
                        if 0xD800 \<le> rr \<and> rr < 0xE000 then
                          (case getu4 (drop 6 s) of
                             Some rr1 \<Rightarrow>
                               if rr < 0xDC00 \<and> 0xDC00 \<le> rr1 \<and> rr1 < 0xE000
                               then Some (EncodeRune
                                      ((rr - 0xD800) * 1024 + (rr1 - 0xDC00) + 0x10000), 12)
                               else Some (RuneError, 6)
                           | None \<Rightarrow> Some (RuneError, 6))
                        else Some (EncodeRune rr, 6))
                 else None)
          else if (of_char ch :: nat) < 0x20 then None
          else if (of_char ch :: nat) < 0x80 then Some ([ch], 1)
          else
            (let n = utf8_size s in if n = 0 then Some (RuneError, 1) else Some (take n s, n)))"

lemma unquote_step_pos: "unquote_step s = Some (out, k) \<Longrightarrow> 0 < k \<and> k \<le> length s"
  by (auto simp: unquote_step_def Let_def getu4_def utf8_size_def
      split: list.splits if_splits option.splits)

text \<open>
  A string literal from behind its opening quote: the value and the text behind the
  closing quote.
\<close>

function json_string :: "string \<Rightarrow> string \<Rightarrow> (string \<times> string) option" where
  "json_string acc s =
     (case s of
        [] \<Rightarrow> None
      | ch # t \<Rightarrow>
          if ch = CHR 0x22 then Some (acc, t)
          else
            (case unquote_step s of
               None \<Rightarrow> None
             | Some (out, k) \<Rightarrow> json_string (acc @ out) (drop k s)))"
  by pat_completeness auto
termination
  by (relation "measure (\<lambda>(acc, s). length s)")
    (auto dest!: unquote_step_pos unquote_step_pos [OF sym])

declare json_string.simps [simp del]

text \<open>The value of a member: a string literal or \<^verbatim>\<open>null\<close>, which leaves the empty string.\<close>

definition json_value :: "string \<Rightarrow> (string \<times> string) option" where
  "json_value s =
     (case s of
        [] \<Rightarrow> None
      | ch # t \<Rightarrow>
          if ch = CHR 0x22 then json_string [] t
          else if take 4 s = ''null'' then Some ([], drop 4 s)
          else None)"

lemma json_string_shorter:
  "json_string acc s = Some (v, r) \<Longrightarrow> length r < length s"
proof (induction acc s rule: json_string.induct)
  case (1 acc s)
  show ?case
  proof (cases s)
    case Nil
    with "1.prems" show ?thesis by (simp add: json_string.simps)
  next
    case (Cons ch t)
    show ?thesis
    proof (cases "ch = CHR 0x22")
      case True
      with Cons "1.prems" show ?thesis by (simp add: json_string.simps)
    next
      case False
      from "1.prems" have "(case unquote_step s of
           None \<Rightarrow> None
         | Some (out, k) \<Rightarrow> json_string (acc @ out) (drop k s)) = Some (v, r)"
        using Cons False by (subst (asm) json_string.simps) simp
      then obtain out k where st: "unquote_step s = Some (out, k)"
        and rec: "json_string (acc @ out) (drop k s) = Some (v, r)"
        by (auto split: option.splits)
      from "1.IH" [OF Cons False st refl rec] have "length r < length (drop k s)" .
      then show ?thesis by simp
    qed
  qed
qed

lemma json_value_shorter: "json_value s = Some (v, r) \<Longrightarrow> length r < length s"
  by (auto simp: json_value_def split: list.splits if_splits dest: json_string_shorter)

lemma skipSpace_le: "length (skipSpace s) \<le> length s"
  by (simp add: skipSpace_def length_dropWhile_le)

text \<open>
  The members of an object from the opening quote of a key on, stored into the map in
  their order, so that of two members with one key the later one stays; the result is the
  map and the text behind the closing brace.
\<close>

function json_members ::
  "(string \<rightharpoonup> string) \<Rightarrow> string \<Rightarrow> ((string \<rightharpoonup> string) \<times> string) option" where
  "json_members m s =
     (case s of
        [] \<Rightarrow> None
      | ch # t \<Rightarrow>
          if ch \<noteq> CHR 0x22 then None
          else
            (case json_string [] t of
               None \<Rightarrow> None
             | Some (key, s1) \<Rightarrow>
                 (case skipSpace s1 of
                    [] \<Rightarrow> None
                  | c1 # s2 \<Rightarrow>
                      if c1 \<noteq> CHR '':'' then None
                      else
                        (case json_value (skipSpace s2) of
                           None \<Rightarrow> None
                         | Some (v, s3) \<Rightarrow>
                             (case skipSpace s3 of
                                [] \<Rightarrow> None
                              | c3 # s4 \<Rightarrow>
                                  if c3 = CHR '','' then json_members (m(key \<mapsto> v)) (skipSpace s4)
                                  else if c3 = CHR ''}'' then Some (m(key \<mapsto> v), s4)
                                  else None)))))"
  by pat_completeness auto
termination
proof (relation "measure (\<lambda>(m, s). length s)")
  show "wf (measure (\<lambda>(m, s). length s))" by simp
next
  fix m :: "string \<rightharpoonup> string" and s ch t x2 key s1 c1 s2 x2a v s3 c3 s4
  assume s: "s = ch # t" and "json_string [] t = Some x2" and "(key, s1) = x2"
    and 1: "skipSpace s1 = c1 # s2" and "json_value (skipSpace s2) = Some x2a"
    and "(v, s3) = x2a" and 3: "skipSpace s3 = c3 # s4"
  then have a: "length s1 < length t" and b: "length s3 < length (skipSpace s2)"
    by (auto dest: json_string_shorter json_value_shorter)
  have "length (skipSpace s4) \<le> length s4" by (rule skipSpace_le)
  also have "\<dots> < length (skipSpace s3)" using 3 by simp
  also have "\<dots> \<le> length s3" by (rule skipSpace_le)
  also have "\<dots> < length (skipSpace s2)" by (rule b)
  also have "\<dots> \<le> length s2" by (rule skipSpace_le)
  also have "\<dots> < length (skipSpace s1)" using 1 by simp
  also have "\<dots> \<le> length s1" by (rule skipSpace_le)
  also have "\<dots> < length s" using a s by simp
  finally show "((m(key \<mapsto> v), skipSpace s4), (m, s)) \<in> measure (\<lambda>(m, s). length s)"
    by simp
qed

declare json_members.simps [simp del]

text \<open>
  \<^verbatim>\<open>json.Unmarshal(data, &event)\<close> for an \<^verbatim>\<open>event\<close> that starts as the nil map: \<^verbatim>\<open>null\<close> leaves it
  nil, an object makes a map.
\<close>

definition json_Unmarshal :: "string \<Rightarrow> error + Event" where
  "json_Unmarshal data =
     (let s = skipSpace data in
      case s of
        [] \<Rightarrow> Inl JSONError
      | ch # t \<Rightarrow>
          if ch = CHR ''{'' then
            (case skipSpace t of
               [] \<Rightarrow> Inl JSONError
             | c1 # t1 \<Rightarrow>
                 if c1 = CHR ''}'' then
                   (if skipSpace t1 = [] then Inr (Event Map.empty) else Inl JSONError)
                 else
                   (case json_members Map.empty (c1 # t1) of
                      None \<Rightarrow> Inl JSONError
                    | Some (m, r) \<Rightarrow> if skipSpace r = [] then Inr (Event m) else Inl JSONError))
          else if take 4 s = ''null'' \<and> skipSpace (drop 4 s) = [] then Inr NilEvent
          else Inl JSONError)"

definition parseEvent :: "string \<Rightarrow> Event \<times> error option" where
  "parseEvent body =
     (case json_Unmarshal body of
        Inl err \<Rightarrow> (NilEvent, Some (Wrap ''parse event'' err))
      | Inr event \<Rightarrow> (event, None))"

section \<open>The streaming loop of Run (monitor.go)\<close>

text \<open>
  The \<^verbatim>\<open>for\<close> loop that ends \<^verbatim>\<open>Monitor.Run\<close>, on an authenticated connection. \<open>cause\<close>
  is what \<^verbatim>\<open>context.Cause(ctx)\<close> answers when the loop asks, after a failed read: \<open>None\<close>
  while the context is not cancelled, the recorded cause once it is. The loop returns the
  error of \<^verbatim>\<open>Run\<close>, or panics when a read does, with the channels and the connection as
  it leaves them.
\<close>

function Run_loop ::
  "error option \<Rightarrow> subscriber list \<Rightarrow> chans \<Rightarrow> Conn \<Rightarrow> error outcome \<times> chans \<times> Conn" where
  "Run_loop cause subscribers cs c =
     (case Read c of
        (Panics p, c') \<Rightarrow> (Panics p, cs, c')
      | (Returns (resp, Some err), c') \<Rightarrow>
          (case cause of
             Some cerr \<Rightarrow> (Returns (Wrap ''done'' cerr), cs, c')
           | None \<Rightarrow> (Returns (Wrap ''read'' err), cs, c'))
      | (Returns (resp, None), c') \<Rightarrow>
          if ContentType resp = ''text/event-plain'' then
            (case parseEvent (Body resp) of
               (event, Some err) \<Rightarrow> (Returns (Wrap ''event parse'' err), cs, c')
             | (event, None) \<Rightarrow>
                 Run_loop cause subscribers
                   (foldl (\<lambda>cs subscriber. snd (Handle subscriber event cs)) cs subscribers) c')
          else if ContentType resp = ''text/disconnect-notice''
            then (Returns (Wrap ''server closed'' io_EOF), cs, c')
          else Run_loop cause subscribers cs c')"
  by pat_completeness auto
termination
  by (relation "measure (\<lambda>(cause, subscribers, cs, c). length (rd c))")
    (auto dest: Read_consumes [OF sym])

declare Run_loop.simps [simp del]

section \<open>JSON objects as texts\<close>

text \<open>
  A flat JSON object written without escapes and without white space: keys and values of
  printable ASCII other than the quote and the backslash, each in quotes, a colon between
  key and value, commas between members.
\<close>

definition plain :: "string \<Rightarrow> bool" where
  "plain s \<longleftrightarrow> (\<forall>ch\<in>set s. 0x20 \<le> (of_char ch :: nat) \<and> (of_char ch :: nat) < 0x80 \<and>
     ch \<noteq> CHR 0x22 \<and> ch \<noteq> CHR 0x5C)"

definition quoted :: "string \<Rightarrow> string" where
  "quoted s = CHR 0x22 # s @ [CHR 0x22]"

fun members :: "(string \<times> string) list \<Rightarrow> string" where
  "members [] = []"
| "members [(k, v)] = quoted k @ '':'' @ quoted v"
| "members ((k, v) # kvs) = quoted k @ '':'' @ quoted v @ '','' @ members kvs"

definition object :: "(string \<times> string) list \<Rightarrow> string" where
  "object kvs = ''{'' @ members kvs @ ''}''"

section \<open>Response classification\<close>

lemma CutPrefix_append: "CutPrefix (p @ s) p = (s, True)"
  by (simp add: CutPrefix_def HasPrefix_def)

lemma HasPrefix_iff: "HasPrefix s p \<longleftrightarrow> (\<exists>t. s = p @ t)"
proof
  assume "HasPrefix s p"
  then have "s = p @ drop (length p) s"
    by (metis HasPrefix_def append_take_drop_id)
  then show "\<exists>t. s = p @ t" ..
next
  assume "\<exists>t. s = p @ t"
  then show "HasPrefix s p" by (auto simp: HasPrefix_def)
qed

lemma responseError_cases:
  "responseError text =
     (if HasPrefix text ''-ERR '' then Some (errors_New (drop (length ''-ERR '') text))
      else None)"
  by (simp add: responseError_def CutPrefix_def)

text \<open>
  C7. \<open>AsErr\<close> returns \<^verbatim>\<open>io.EOF\<close> for a disconnect notice; for a command reply whose
  \<open>Text\<close> is \<open>"-ERR " @ msg\<close>, and for an API response whose \<open>Body\<close> is
  \<open>"-ERR " @ msg\<close>, it returns a fresh error whose message is exactly \<open>msg\<close>; in every
  other case it returns no error.
\<close>

theorem AsErr_classification:
  "(ContentType r = ctDisconnect \<longrightarrow> AsErr r = Some io_EOF) \<and>
   (ContentType r = ctCommandReply \<longrightarrow>
      (\<forall>msg. Text r = ''-ERR '' @ msg \<longrightarrow> AsErr r = Some (errors_New msg)) \<and>
      (\<not> HasPrefix (Text r) ''-ERR '' \<longrightarrow> AsErr r = None)) \<and>
   (ContentType r = ctAPIResponse \<longrightarrow>
      (\<forall>msg. Body r = ''-ERR '' @ msg \<longrightarrow> AsErr r = Some (errors_New msg)) \<and>
      (\<not> HasPrefix (Body r) ''-ERR '' \<longrightarrow> AsErr r = None)) \<and>
   (ContentType r \<notin> {ctDisconnect, ctCommandReply, ctAPIResponse} \<longrightarrow> AsErr r = None)"
  by (auto simp: AsErr_def responseError_cases HasPrefix_iff ct_defs)

theorem AsErr_classification_witness:
  "AsErr \<lparr>ContentType = ''command/reply'', Text = ''-ERR invalid'', JobUUID = [], Body = []\<rparr>
     = Some (errors_New ''invalid'') \<and>
   AsErr \<lparr>ContentType = ''command/reply'', Text = ''+OK'', JobUUID = [], Body = []\<rparr> = None \<and>
   AsErr \<lparr>ContentType = ''api/response'', Text = [], JobUUID = [], Body = ''-ERR no reply''\<rparr>
     = Some (errors_New ''no reply'') \<and>
   AsErr \<lparr>ContentType = ''text/disconnect-notice'', Text = [], JobUUID = [], Body = []\<rparr>
     = Some io_EOF \<and>
   AsErr \<lparr>ContentType = ''auth/request'', Text = ''-ERR x'', JobUUID = [], Body = []\<rparr> = None"
  using
    AsErr_classification [of "\<lparr>ContentType = ''command/reply'', Text = ''-ERR invalid'', JobUUID = [], Body = []\<rparr>"]
    AsErr_classification [of "\<lparr>ContentType = ''command/reply'', Text = ''+OK'', JobUUID = [], Body = []\<rparr>"]
    AsErr_classification [of "\<lparr>ContentType = ''api/response'', Text = [], JobUUID = [], Body = ''-ERR no reply''\<rparr>"]
    AsErr_classification [of "\<lparr>ContentType = ''text/disconnect-notice'', Text = [], JobUUID = [], Body = []\<rparr>"]
    AsErr_classification [of "\<lparr>ContentType = ''auth/request'', Text = ''-ERR x'', JobUUID = [], Body = []\<rparr>"]
  by (simp add: ct_defs HasPrefix_def)

section \<open>Event accessors\<close>

text \<open>
  C10. \<open>ContentType()\<close> of an event returns the value stored under the key
  \<open>"Content-Length"\<close>, that is \<open>e.Get("Content-Length")\<close>; for an event without that
  key it returns the empty string, whatever a \<open>"Content-Type"\<close> key holds.
\<close>

theorem Event_ContentType_reads_Content_Length:
  "EventContentType e = Get e ''Content-Length'' \<and>
   EventContentType NilEvent = [] \<and>
   (m ''Content-Length'' = None \<longrightarrow> EventContentType (Event m) = [])"
  by (simp add: EventContentType_def contentLengthKey_def)

theorem Event_ContentType_reads_Content_Length_witness:
  "EventContentType (Event [''Content-Type'' \<mapsto> ''text/event-plain'']) = [] \<and>
   EventContentType (Event [''Content-Type'' \<mapsto> ''text/event-plain'', ''Content-Length'' \<mapsto> ''42''])
     = ''42''"
  using Event_ContentType_reads_Content_Length
    [of "Event [''Content-Type'' \<mapsto> ''text/event-plain'', ''Content-Length'' \<mapsto> ''42'']"
        "[''Content-Type'' \<mapsto> ''text/event-plain'']"]
  by simp

section \<open>Subscriber filters\<close>

lemma newSubscriber_loop_wildcard:
  "\<exists>name\<in>set events. name = [] \<or> name = ''*'' \<or> EqualFold name ''all'' \<Longrightarrow>
   newSubscriber_loop ch acc events = \<lparr>Names = {}, Send = ch\<rparr>"
  by (induction events arbitrary: acc) auto

lemma newSubscriber_loop_names:
  "\<forall>name\<in>set events. name \<noteq> [] \<and> name \<noteq> ''*'' \<and> \<not> EqualFold name ''all'' \<Longrightarrow>
   newSubscriber_loop ch acc events = \<lparr>Names = acc \<union> stored_names events, Send = ch\<rparr>"
  by (induction events arbitrary: acc) (auto simp: stored_names_def)

text \<open>
  C3, amended. A subscriber created on channel \<open>ch\<close> with a list of names that is empty,
  or holds the empty name, the name \<open>"*"\<close> or a name equal to \<open>"all"\<close> up to case, stores
  the empty set, and \<open>Handle\<close> sends every event on \<open>ch\<close> and returns true. Otherwise
  it stores each name with a leading \<open>"CUSTOM "\<close> cut off, and \<open>Handle\<close> sends the event
  and returns true when the event's \<open>Name\<close> is stored, and returns false with the
  channels unchanged when it is not.
\<close>

theorem newSubscriber_Handle:
  "(events = [] \<or> (\<exists>name\<in>set events. name = [] \<or> name = ''*'' \<or> EqualFold name ''all'') \<longrightarrow>
      newSubscriber (Some ch) events = Inr \<lparr>Names = {}, Send = ch\<rparr> \<and>
      Handle \<lparr>Names = {}, Send = ch\<rparr> e cs = (True, cs(ch := cs ch @ [e]))) \<and>
   (events \<noteq> [] \<and> (\<forall>name\<in>set events. name \<noteq> [] \<and> name \<noteq> ''*'' \<and> \<not> EqualFold name ''all'') \<longrightarrow>
      newSubscriber (Some ch) events = Inr \<lparr>Names = stored_names events, Send = ch\<rparr> \<and>
      Handle \<lparr>Names = stored_names events, Send = ch\<rparr> e cs =
        (if Name e \<in> stored_names events then (True, cs(ch := cs ch @ [e])) else (False, cs)))"
proof (intro conjI impI)
  assume w: "events = [] \<or> (\<exists>name\<in>set events. name = [] \<or> name = ''*'' \<or> EqualFold name ''all'')"
  show "newSubscriber (Some ch) events = Inr \<lparr>Names = {}, Send = ch\<rparr>"
  proof (cases "events = []")
    case True
    then show ?thesis by (simp add: newSubscriber_def)
  next
    case False
    with w show ?thesis by (simp add: newSubscriber_def newSubscriber_loop_wildcard)
  qed
  show "Handle \<lparr>Names = {}, Send = ch\<rparr> e cs = (True, cs(ch := cs ch @ [e]))"
    by (simp add: Handle_def chan_send_def)
next
  assume n: "events \<noteq> [] \<and> (\<forall>name\<in>set events. name \<noteq> [] \<and> name \<noteq> ''*'' \<and> \<not> EqualFold name ''all'')"
  then show "newSubscriber (Some ch) events = Inr \<lparr>Names = stored_names events, Send = ch\<rparr>"
    by (simp add: newSubscriber_def newSubscriber_loop_names)
  from n have "stored_names events \<noteq> {}" by (simp add: stored_names_def)
  then show "Handle \<lparr>Names = stored_names events, Send = ch\<rparr> e cs =
        (if Name e \<in> stored_names events then (True, cs(ch := cs ch @ [e])) else (False, cs))"
    by (simp add: Handle_def chan_send_def)
qed

lemma Name_Event_Name [simp]:
  "Name (Event [''Event-Name'' \<mapsto> n]) = n"
  by (simp add: Name_def eventSubclassKey_def eventNameKey_def)

lemma Name_Event_Subclass [simp]:
  "Name (Event [''Event-Name'' \<mapsto> n, ''Event-Subclass'' \<mapsto> c]) = (if c = [] then n else c)"
  by (simp add: Name_def eventSubclassKey_def eventNameKey_def)

theorem newSubscriber_Handle_witness:
  "newSubscriber (Some 7) [''CUSTOM conference::maintenance'']
     = Inr \<lparr>Names = {''conference::maintenance''}, Send = 7\<rparr> \<and>
   Handle \<lparr>Names = {''conference::maintenance''}, Send = 7\<rparr>
       (Event [''Event-Name'' \<mapsto> ''CUSTOM'', ''Event-Subclass'' \<mapsto> ''conference::maintenance''])
       (\<lambda>_. [])
     = (True, (\<lambda>_. [])(7 := [Event [''Event-Name'' \<mapsto> ''CUSTOM'',
                                      ''Event-Subclass'' \<mapsto> ''conference::maintenance'']])) \<and>
   Handle \<lparr>Names = {''conference::maintenance''}, Send = 7\<rparr>
       (Event [''Event-Name'' \<mapsto> ''HEARTBEAT'']) (\<lambda>_. [])
     = (False, \<lambda>_. []) \<and>
   newSubscriber (Some 7) [''HEARTBEAT'', ''aLL''] = Inr \<lparr>Names = {}, Send = 7\<rparr> \<and>
   Handle \<lparr>Names = {}, Send = 7\<rparr> (Event [''Event-Name'' \<mapsto> ''HEARTBEAT'']) (\<lambda>_. [])
     = (True, (\<lambda>_. [])(7 := [Event [''Event-Name'' \<mapsto> ''HEARTBEAT'']]))"
  using
    newSubscriber_Handle [of "[''CUSTOM conference::maintenance'']" 7
      "Event [''Event-Name'' \<mapsto> ''CUSTOM'', ''Event-Subclass'' \<mapsto> ''conference::maintenance'']"
      "\<lambda>_. []"]
    newSubscriber_Handle [of "[''CUSTOM conference::maintenance'']" 7
      "Event [''Event-Name'' \<mapsto> ''HEARTBEAT'']" "\<lambda>_. []"]
    newSubscriber_Handle [of "[''HEARTBEAT'', ''aLL'']" 7
      "Event [''Event-Name'' \<mapsto> ''HEARTBEAT'']" "\<lambda>_. []"]
  by (simp add: stored_names_def CutPrefix_def HasPrefix_def EqualFold_def asciiLower_def)

text \<open>
  C3 as stated fails on the empty name. The list \<open>[""]\<close> is not empty and holds neither
  \<open>"*"\<close> nor a spelling of \<open>"all"\<close>, so the claim has the set \<open>{""}\<close> stored and an
  event named \<open>HEARTBEAT\<close> refused. The subscriber stores the empty set and \<open>Handle\<close>
  sends the event and returns true.
\<close>

theorem newSubscriber_empty_name_counterexample:
  "[''''] \<noteq> [] \<and> '''' \<noteq> ''*'' \<and> \<not> EqualFold '''' ''all'' \<and>
   stored_names [''''] = {''''} \<and>
   Name (Event [''Event-Name'' \<mapsto> ''HEARTBEAT'']) \<notin> stored_names [''''] \<and>
   newSubscriber (Some 7) [''''] = Inr \<lparr>Names = {}, Send = 7\<rparr> \<and>
   Handle \<lparr>Names = {}, Send = 7\<rparr> (Event [''Event-Name'' \<mapsto> ''HEARTBEAT'']) (\<lambda>_. [])
     = (True, (\<lambda>_. [])(7 := [Event [''Event-Name'' \<mapsto> ''HEARTBEAT'']]))"
  by (simp add: stored_names_def CutPrefix_def HasPrefix_def EqualFold_def
      newSubscriber_def Handle_def chan_send_def)

section \<open>The aggregate subscription command\<close>

lemma subscribe_events_None:
  "\<exists>s\<in>set subs. Names s = {} \<Longrightarrow> subscribe_events subs acc = None"
proof (induction subs arbitrary: acc)
  case Nil
  then show ?case by simp
next
  case (Cons a subs)
  show ?case
  proof (cases "Names a = {}")
    case True
    then show ?thesis by simp
  next
    case False
    with Cons.prems have "\<exists>s\<in>set subs. Names s = {}" by auto
    with False show ?thesis by (simp add: Cons.IH)
  qed
qed

lemma subscribe_events_Some:
  "\<forall>s\<in>set subs. Names s \<noteq> {} \<Longrightarrow>
   subscribe_events subs acc = Some (acc \<union> \<Union> (Names ` set subs))"
  by (induction subs arbitrary: acc) auto

lemma subscribe_names_eq:
  "subscribe_names names cmd custom =
     (cmd @ spaced (filter (\<lambda>n. n \<in> eventNames) names),
      custom @ spaced (filter (\<lambda>n. n \<notin> eventNames) names))"
  by (induction names arbitrary: cmd custom) (simp_all add: spaced_def)

lemma spaced_Nil_iff: "spaced names = [] \<longleftrightarrow> names = []"
  by (cases names) (simp_all add: spaced_def)

text \<open>
  C4. When a subscriber has no names the command is \<open>"event plain ALL"\<close>. Otherwise,
  for every order in which the iteration yields the union \<open>U\<close> of the subscribers' names
  (each name once), the command is \<open>"event plain"\<close>, then each name of \<open>U\<close> in the
  vocabulary after one space, then, when \<open>U\<close> has names outside the vocabulary, one
  \<open>" CUSTOM"\<close> followed by each of those names after one space; with all of \<open>U\<close> in the
  vocabulary nothing follows the first part.
\<close>

theorem subscribe_command:
  assumes "set (keys (\<Union> (Names ` set subs))) = \<Union> (Names ` set subs)"
    and "distinct (keys (\<Union> (Names ` set subs)))"
  shows "((\<exists>s\<in>set subs. Names s = {}) \<longrightarrow> subscribe keys subs = ''event plain ALL'') \<and>
    ((\<forall>s\<in>set subs. Names s \<noteq> {}) \<longrightarrow>
       (\<exists>builtin custom.
          set builtin = \<Union> (Names ` set subs) \<inter> eventNames \<and> distinct builtin \<and>
          set custom = \<Union> (Names ` set subs) - eventNames \<and> distinct custom \<and>
          subscribe keys subs =
            ''event plain'' @ spaced builtin @
            (if custom = [] then [] else '' CUSTOM'' @ spaced custom)))"
proof (intro conjI impI)
  assume "\<exists>s\<in>set subs. Names s = {}"
  then show "subscribe keys subs = ''event plain ALL''"
    by (simp add: subscribe_def subscribe_events_None cmdSubscribe_def)
next
  let ?U = "\<Union> (Names ` set subs)"
  let ?b = "filter (\<lambda>n. n \<in> eventNames) (keys ?U)"
  let ?c = "filter (\<lambda>n. n \<notin> eventNames) (keys ?U)"
  assume "\<forall>s\<in>set subs. Names s \<noteq> {}"
  then have ev: "subscribe_events subs {} = Some ?U"
    by (simp add: subscribe_events_Some)
  have cmd: "subscribe keys subs =
      ''event plain'' @ spaced ?b @ (if ?c = [] then [] else '' CUSTOM'' @ spaced ?c)"
    by (simp add: subscribe_def ev subscribe_names_eq cmdSubscribe_def spaced_Nil_iff)
  have "set ?b = ?U \<inter> eventNames" "set ?c = ?U - eventNames"
    using assms(1) by auto
  moreover have "distinct ?b" "distinct ?c"
    using assms(2) by simp_all
  ultimately show "\<exists>builtin custom.
          set builtin = ?U \<inter> eventNames \<and> distinct builtin \<and>
          set custom = ?U - eventNames \<and> distinct custom \<and>
          subscribe keys subs =
            ''event plain'' @ spaced builtin @
            (if custom = [] then [] else '' CUSTOM'' @ spaced custom)"
    using cmd by blast
qed


lemma HEARTBEAT_builtin: "''HEARTBEAT'' \<in> eventNames"
  by (simp add: eventNames_def)

lemma custom_not_builtin: "''my.custom.event'' \<notin> eventNames"
  by (simp add: eventNames_def)

theorem subscribe_command_witness:
  "subscribe (\<lambda>_. [''my.custom.event'', ''HEARTBEAT''])
     [\<lparr>Names = {''HEARTBEAT''}, Send = 0\<rparr>, \<lparr>Names = {''my.custom.event''}, Send = 1\<rparr>]
     = ''event plain HEARTBEAT CUSTOM my.custom.event'' \<and>
   subscribe (\<lambda>_. [''HEARTBEAT''])
     [\<lparr>Names = {''HEARTBEAT''}, Send = 0\<rparr>, \<lparr>Names = {}, Send = 1\<rparr>]
     = ''event plain ALL''"
proof -
  have a: "set [''my.custom.event'', ''HEARTBEAT''] =
      \<Union> (Names ` set [\<lparr>Names = {''HEARTBEAT''}, Send = 0::nat\<rparr>,
               \<lparr>Names = {''my.custom.event''}, Send = 1\<rparr>])"
    by auto
  have b: "distinct [''my.custom.event'', ''HEARTBEAT'']" by simp
  have c: "set [''HEARTBEAT''] =
      \<Union> (Names ` set [\<lparr>Names = {''HEARTBEAT''}, Send = 0::nat\<rparr>, \<lparr>Names = {}, Send = 1\<rparr>])"
    by auto
  have d: "distinct [''HEARTBEAT'']" by simp
  have e: "subscribe (\<lambda>_. [''my.custom.event'', ''HEARTBEAT''])
     [\<lparr>Names = {''HEARTBEAT''}, Send = 0\<rparr>, \<lparr>Names = {''my.custom.event''}, Send = 1\<rparr>]
     = ''event plain HEARTBEAT CUSTOM my.custom.event''"
    by (simp add: subscribe_def cmdSubscribe_def HEARTBEAT_builtin custom_not_builtin)
  show ?thesis
    using subscribe_command [of "\<lambda>_. [''HEARTBEAT'']"
        "[\<lparr>Names = {''HEARTBEAT''}, Send = 0\<rparr>, \<lparr>Names = {}, Send = 1\<rparr>]", OF c d]
      subscribe_command [of "\<lambda>_. [''my.custom.event'', ''HEARTBEAT'']"
        "[\<lparr>Names = {''HEARTBEAT''}, Send = 0\<rparr>, \<lparr>Names = {''my.custom.event''}, Send = 1\<rparr>]",
        OF a b] e
    by simp
qed

section \<open>Frames\<close>

text \<open>
  C1, amended. A blank line (a line feed, or a carriage return and a line feed) met
  while the \<open>ContentType\<close> read so far is empty is skipped: the read goes on as if the
  line were not there, as it does before any header (\<open>Read\<close> starts with an empty
  response). A blank line met once a non-empty \<open>ContentType\<close> is stored ends the header
  block: the loop is left with the response and the content length read so far, and the
  read continues with the body.
\<close>

theorem Read_blank_line:
  assumes "rd c = LF # rest \<or> rd c = CR # LF # rest"
  shows "(ContentType resp = [] \<longrightarrow>
            Read_loop resp n c = Read_loop resp n (c\<lparr>rd := rest\<rparr>) \<and>
            Read_from resp n c = Read_from resp n (c\<lparr>rd := rest\<rparr>)) \<and>
         (ContentType resp \<noteq> [] \<longrightarrow>
            Read_loop resp n c = (Inr (resp, n), c\<lparr>rd := rest\<rparr>) \<and>
            Read_from resp n c = Read_body resp n (c\<lparr>rd := rest\<rparr>)) \<and>
         Read c = Read (c\<lparr>rd := rest\<rparr>)"
proof -
  have step: "Read_loop r m c =
      (if ContentType r = [] then Read_loop r m (c\<lparr>rd := rest\<rparr>)
       else (Inr (r, m), c\<lparr>rd := rest\<rparr>))" for r m
    using readLine_blank [OF assms] by (rule Read_loop_blank)
  show ?thesis
    by (simp add: step Read_from_def Read_def zeroResponse_def)
qed

theorem Read_blank_line_witness:
  "Read \<lparr>rd = ''\<newline>Content-Type: command/reply\<newline>Reply-Text: +OK\<newline>\<newline>rest'',
         rdErr = io_EOF, wr = [], wrErr = None\<rparr>
   = Read \<lparr>rd = ''Content-Type: command/reply\<newline>Reply-Text: +OK\<newline>\<newline>rest'',
           rdErr = io_EOF, wr = [], wrErr = None\<rparr> \<and>
   Read \<lparr>rd = ''Content-Type: command/reply\<newline>Reply-Text: +OK\<newline>\<newline>rest'',
           rdErr = io_EOF, wr = [], wrErr = None\<rparr>
   = (Returns (\<lparr>ContentType = ''command/reply'', Text = ''+OK'', JobUUID = [], Body = []\<rparr>, None),
      \<lparr>rd = ''rest'', rdErr = io_EOF, wr = [], wrErr = None\<rparr>) \<and>
   Read_loop \<lparr>ContentType = ''command/reply'', Text = ''+OK'', JobUUID = [], Body = []\<rparr> 0
      \<lparr>rd = ''\<newline>rest'', rdErr = io_EOF, wr = [], wrErr = None\<rparr>
   = (Inr (\<lparr>ContentType = ''command/reply'', Text = ''+OK'', JobUUID = [], Body = []\<rparr>, 0),
      \<lparr>rd = ''rest'', rdErr = io_EOF, wr = [], wrErr = None\<rparr>)"
  using
    Read_blank_line [of "\<lparr>rd = ''\<newline>Content-Type: command/reply\<newline>Reply-Text: +OK\<newline>\<newline>rest'',
         rdErr = io_EOF, wr = [], wrErr = None\<rparr>"
      "''Content-Type: command/reply\<newline>Reply-Text: +OK\<newline>\<newline>rest''" zeroResponse 0]
    Read_blank_line [of "\<lparr>rd = ''\<newline>rest'', rdErr = io_EOF, wr = [], wrErr = None\<rparr>" "''rest''"
      "\<lparr>ContentType = ''command/reply'', Text = ''+OK'', JobUUID = [], Body = []\<rparr>" 0]
  by (simp add: Read_eval)

text \<open>
  C1 as stated fails for a frame without a content type. After the header
  \<open>Reply-Text: +OK\<close> the blank line is skipped, not taken as the end of the frame: at
  the end of the stream the read fails with \<^verbatim>\<open>io.EOF\<close>, and with another frame behind
  it the read runs on into that frame and returns both as one response.
\<close>

theorem Read_blank_line_counterexample:
  "Read \<lparr>rd = ''Reply-Text: +OK\<newline>\<newline>'', rdErr = io_EOF, wr = [], wrErr = None\<rparr>
   = (Returns (\<lparr>ContentType = [], Text = ''+OK'', JobUUID = [], Body = []\<rparr>, Some io_EOF),
      \<lparr>rd = [], rdErr = io_EOF, wr = [], wrErr = None\<rparr>) \<and>
   Read \<lparr>rd = ''Reply-Text: +OK\<newline>\<newline>Content-Type: command/reply\<newline>\<newline>'',
         rdErr = io_EOF, wr = [], wrErr = None\<rparr>
   = (Returns (\<lparr>ContentType = ''command/reply'', Text = ''+OK'', JobUUID = [], Body = []\<rparr>, None),
      \<lparr>rd = [], rdErr = io_EOF, wr = [], wrErr = None\<rparr>)"
  by (simp add: Read_eval)

lemma trimLeft_dropWhile: "trimLeft v = dropWhile (\<lambda>b. b = CHR '' '' \<or> b = CHR 0x09) v"
  by (induction v) auto

lemma dropCR_header: "dropCR (key @ CHR '':'' # v) = key @ CHR '':'' # dropCR v"
  by (simp add: dropCR_def CR_def butlast_append)

lemma IndexByte_notin: "b \<notin> set s \<Longrightarrow> IndexByte s b = - 1"
  by (simp add: IndexByte_def)

text \<open>
  C8. A line that is not blank and holds no colon makes the read fail with the
  malformed-header error, from any state of the header loop; the response comes back with
  that error, never with a nil error. So does a line that starts with the colon. A line
  \<open>key:v\<close> with a key has its value \<open>v\<close> stripped of leading spaces and tabs before it
  is stored in the field of a known key or parsed as the content length; the line of an
  unknown key changes nothing.
\<close>

theorem Read_header_line:
  assumes "LF \<notin> set l" and "rd c = l @ LF # rest" and "dropCR l \<noteq> []"
  shows
    "(CHR '':'' \<notin> set (dropCR l) \<longrightarrow>
        Read_from resp n c = (Returns (resp, Some (MalformedHeaderLine (dropCR l))), c\<lparr>rd := rest\<rparr>)) \<and>
     (dropCR l = key @ CHR '':'' # v \<and> CHR '':'' \<notin> set key \<longrightarrow>
        (key = [] \<longrightarrow>
           Read_from resp n c = (Returns (resp, Some (MalformedHeaderLine (dropCR l))), c\<lparr>rd := rest\<rparr>)) \<and>
        (key = ''Content-Type'' \<longrightarrow>
           Read_from resp n c = Read_from (resp\<lparr>ContentType := trimLeft v\<rparr>) n (c\<lparr>rd := rest\<rparr>)) \<and>
        (key = ''Reply-Text'' \<longrightarrow>
           Read_from resp n c = Read_from (resp\<lparr>Text := trimLeft v\<rparr>) n (c\<lparr>rd := rest\<rparr>)) \<and>
        (key = ''Job-UUID'' \<longrightarrow>
           Read_from resp n c = Read_from (resp\<lparr>JobUUID := trimLeft v\<rparr>) n (c\<lparr>rd := rest\<rparr>)) \<and>
        (key = ''Content-Length'' \<longrightarrow>
           Read_from resp n c =
             (case Atoi (trimLeft v) of
                Some n' \<Rightarrow> Read_from resp n' (c\<lparr>rd := rest\<rparr>)
              | None \<Rightarrow>
                  (Returns (resp, Some (MalformedContentLength (trimLeft v))), c\<lparr>rd := rest\<rparr>))) \<and>
        (key \<notin> {[], ''Content-Type'', ''Reply-Text'', ''Job-UUID'', ''Content-Length''} \<longrightarrow>
           Read_from resp n c = Read_from resp n (c\<lparr>rd := rest\<rparr>)) \<and>
        trimLeft v = dropWhile (\<lambda>b. b = CHR '' '' \<or> b = CHR 0x09) v)"
proof -
  have rl: "readLine c = ((dropCR l, None), c\<lparr>rd := rest\<rparr>)"
    using assms(1,2) by (rule readLine_line)
  have step: "Read_loop resp n c = header_step (dropCR l) resp n (c\<lparr>rd := rest\<rparr>)"
    using rl assms(3) by (rule Read_loop_header)
  have malformed: "Read_from resp n c =
      (Returns (resp, Some (MalformedHeaderLine (dropCR l))), c\<lparr>rd := rest\<rparr>)"
    if "IndexByte (dropCR l) CHR '':'' \<le> 0"
    using that by (simp add: Read_from_def step header_step_def)
  have found: "IndexByte (key @ CHR '':'' # v) CHR '':'' = int (length key)"
    if "CHR '':'' \<notin> set key"
    using that by (rule IndexByte_append_found)
  show ?thesis
  proof (intro conjI impI; (elim conjE)?)
    assume "CHR '':'' \<notin> set (dropCR l)"
    then show "Read_from resp n c =
        (Returns (resp, Some (MalformedHeaderLine (dropCR l))), c\<lparr>rd := rest\<rparr>)"
      by (intro malformed) (simp add: IndexByte_notin)
  next
    assume "dropCR l = key @ CHR '':'' # v" "CHR '':'' \<notin> set key" "key = []"
    then show "Read_from resp n c =
        (Returns (resp, Some (MalformedHeaderLine (dropCR l))), c\<lparr>rd := rest\<rparr>)"
      by (intro malformed) (simp add: IndexByte_def)
  next
    assume "dropCR l = key @ CHR '':'' # v" "CHR '':'' \<notin> set key" "key = ''Content-Type''"
    then show "Read_from resp n c =
        Read_from (resp\<lparr>ContentType := trimLeft v\<rparr>) n (c\<lparr>rd := rest\<rparr>)"
      using found by (simp add: Read_from_def step header_step_def)
  next
    assume "dropCR l = key @ CHR '':'' # v" "CHR '':'' \<notin> set key" "key = ''Reply-Text''"
    then show "Read_from resp n c = Read_from (resp\<lparr>Text := trimLeft v\<rparr>) n (c\<lparr>rd := rest\<rparr>)"
      using found by (simp add: Read_from_def step header_step_def)
  next
    assume "dropCR l = key @ CHR '':'' # v" "CHR '':'' \<notin> set key" "key = ''Job-UUID''"
    then show "Read_from resp n c =
        Read_from (resp\<lparr>JobUUID := trimLeft v\<rparr>) n (c\<lparr>rd := rest\<rparr>)"
      using found by (simp add: Read_from_def step header_step_def)
  next
    assume "dropCR l = key @ CHR '':'' # v" "CHR '':'' \<notin> set key" "key = ''Content-Length''"
    then show "Read_from resp n c =
        (case Atoi (trimLeft v) of
           Some n' \<Rightarrow> Read_from resp n' (c\<lparr>rd := rest\<rparr>)
         | None \<Rightarrow> (Returns (resp, Some (MalformedContentLength (trimLeft v))), c\<lparr>rd := rest\<rparr>))"
      using found by (simp add: Read_from_def step header_step_def split: option.split)
  next
    assume "dropCR l = key @ CHR '':'' # v" "CHR '':'' \<notin> set key"
      "key \<notin> {[], ''Content-Type'', ''Reply-Text'', ''Job-UUID'', ''Content-Length''}"
    then show "Read_from resp n c = Read_from resp n (c\<lparr>rd := rest\<rparr>)"
      using found by (simp add: Read_from_def step header_step_def)
  next
    show "trimLeft v = dropWhile (\<lambda>b. b = CHR '' '' \<or> b = CHR 0x09) v"
      by (rule trimLeft_dropWhile)
  qed
qed


theorem Read_header_line_witness:
  "Read_from \<lparr>ContentType = ''command/reply'', Text = [], JobUUID = [], Body = []\<rparr> 0
      \<lparr>rd = ''Reply-Text +OK\<newline>\<newline>'', rdErr = io_EOF, wr = [], wrErr = None\<rparr>
   = (Returns (\<lparr>ContentType = ''command/reply'', Text = [], JobUUID = [], Body = []\<rparr>,
       Some (MalformedHeaderLine ''Reply-Text +OK'')),
      \<lparr>rd = ''\<newline>'', rdErr = io_EOF, wr = [], wrErr = None\<rparr>) \<and>
   Read_from \<lparr>ContentType = ''command/reply'', Text = [], JobUUID = [], Body = []\<rparr> 0
      \<lparr>rd = ''Reply-Text:'' @ [CHR 0x09] @ ''  +OK'' @ [CR, LF, CR, LF], rdErr = io_EOF,
        wr = [], wrErr = None\<rparr>
   = Read_from \<lparr>ContentType = ''command/reply'', Text = ''+OK'', JobUUID = [], Body = []\<rparr> 0
      \<lparr>rd = [CR, LF], rdErr = io_EOF, wr = [], wrErr = None\<rparr>"
proof -
  let ?r = "\<lparr>ContentType = ''command/reply'', Text = [], JobUUID = [], Body = []\<rparr>"
  let ?c1 = "\<lparr>rd = ''Reply-Text +OK\<newline>\<newline>'', rdErr = io_EOF, wr = [], wrErr = None\<rparr>"
  let ?l2 = "''Reply-Text:'' @ [CHR 0x09] @ ''  +OK'' @ [CR]"
  let ?c2 = "\<lparr>rd = ''Reply-Text:'' @ [CHR 0x09] @ ''  +OK'' @ [CR, LF, CR, LF], rdErr = io_EOF,
        wr = [], wrErr = None\<rparr>"
  have a1: "LF \<notin> set ''Reply-Text +OK''" by (simp add: LF_def)
  have b1: "rd ?c1 = ''Reply-Text +OK'' @ LF # ''\<newline>''" by (simp add: LF_def)
  have c1: "dropCR ''Reply-Text +OK'' \<noteq> []" by (simp add: dropCR_def)
  have a2: "LF \<notin> set ?l2" by (simp add: LF_def CR_def)
  have b2: "rd ?c2 = ?l2 @ LF # [CR, LF]" by simp
  have c2: "dropCR ?l2 \<noteq> []" by (simp add: dropCR_def)
  have d2: "dropCR ?l2 = ''Reply-Text'' @ CHR '':'' # ([CHR 0x09] @ ''  +OK'')"
    by (simp add: dropCR_def)
  from Read_header_line [OF a1 b1 c1, where resp = ?r and n = 0]
  have "Read_from ?r 0 ?c1 = (Returns (?r, Some (MalformedHeaderLine ''Reply-Text +OK'')), ?c1\<lparr>rd := ''\<newline>''\<rparr>)"
    by (simp add: dropCR_def CR_def)
  moreover
  from Read_header_line [OF a2 b2 c2, where key = "''Reply-Text''"
      and v = "[CHR 0x09] @ ''  +OK''" and resp = ?r and n = 0] d2
  have "Read_from ?r 0 ?c2 = Read_from (?r\<lparr>Text := ''+OK''\<rparr>) 0 (?c2\<lparr>rd := [CR, LF]\<rparr>)"
    by simp
  ultimately show ?thesis by simp
qed

text \<open>
  C6, amended. When the header loop ends with a content length \<open>N > 0\<close> that the
  runtime can allocate, \<open>Read\<close> returns the response with \<open>Body\<close> equal to the next
  \<open>N\<close> bytes of the stream, of length exactly \<open>N\<close>, when the stream has them; when
  fewer than \<open>N\<close> bytes are left it returns an error wrapped as a failed body read, with
  the \<open>Body\<close> of the response empty.
\<close>

theorem Read_body_declared_length:
  assumes "Read_loop zeroResponse 0 c = (Inr (resp, N), c')" and "0 < N"
    and "nat N \<le> maxAlloc"
  shows "(nat N \<le> length (rd c') \<longrightarrow>
            Read c = (Returns (resp\<lparr>Body := take (nat N) (rd c')\<rparr>, None),
                      c'\<lparr>rd := drop (nat N) (rd c')\<rparr>) \<and>
            int (length (Body (resp\<lparr>Body := take (nat N) (rd c')\<rparr>))) = N) \<and>
         (length (rd c') < nat N \<longrightarrow>
            Read c = (Returns (resp, Some (Wrap ''failed to read response body''
                        (if rd c' \<noteq> [] \<and> rdErr c = io_EOF then io_ErrUnexpectedEOF
                         else rdErr c))),
                      c'\<lparr>rd := []\<rparr>) \<and>
            Body resp = [])"
proof -
  from Read_loop_keeps [OF assms(1)] have c': "c' = c\<lparr>rd := rd c'\<rparr>"
    and body: "Body resp = []"
    by (simp_all add: zeroResponse_def)
  from c' have "rdErr c' = rdErr c"
    by (metis Conn.select_convs(2) Conn.surjective Conn.update_convs(1))
  with body assms show ?thesis
    by (simp add: Read_def Read_from_def Read_body_def ReadFull_def make_bytes_def)
qed

theorem Read_body_declared_length_witness:
  "Read \<lparr>rd = ''Content-Type: text/event-plain\<newline>Content-Length: 5\<newline>\<newline>hello+more'',
         rdErr = io_EOF, wr = [], wrErr = None\<rparr>
   = (Returns (\<lparr>ContentType = ''text/event-plain'', Text = [], JobUUID = [], Body = ''hello''\<rparr>,
               None),
      \<lparr>rd = ''+more'', rdErr = io_EOF, wr = [], wrErr = None\<rparr>) \<and>
   Read \<lparr>rd = ''Content-Type: text/event-plain\<newline>Content-Length: 5\<newline>\<newline>hel'',
         rdErr = io_EOF, wr = [], wrErr = None\<rparr>
   = (Returns (\<lparr>ContentType = ''text/event-plain'', Text = [], JobUUID = [], Body = []\<rparr>,
               Some (Wrap ''failed to read response body'' io_ErrUnexpectedEOF)),
      \<lparr>rd = [], rdErr = io_EOF, wr = [], wrErr = None\<rparr>)"
proof -
  let ?hdr = "''Content-Type: text/event-plain\<newline>Content-Length: 5\<newline>\<newline>''"
  let ?r = "\<lparr>ContentType = ''text/event-plain'', Text = [], JobUUID = [], Body = []\<rparr>"
  have loop: "Read_loop zeroResponse 0 \<lparr>rd = ?hdr @ b, rdErr = io_EOF, wr = [], wrErr = None\<rparr>
      = (Inr (?r, 5), \<lparr>rd = b, rdErr = io_EOF, wr = [], wrErr = None\<rparr>)" for b
    by (simp add: Read_eval Atoi_def isDigit_def digit_def)
  have pos: "(0::int) < 5" by simp
  have fits: "nat 5 \<le> maxAlloc" by (simp add: maxAlloc_def)
  from Read_body_declared_length [OF loop [of "''hello+more''"] pos fits]
    Read_body_declared_length [OF loop [of "''hel''"] pos fits]
  show ?thesis by simp
qed

text \<open>
  C6 as stated fails for a length the runtime cannot allocate. A frame that declares
  \<open>9223372036854775807\<close> bytes, the largest \<^verbatim>\<open>int\<close>, passes \<open>Atoi\<close> and the test
  \<open>contentLength > 0\<close>; the allocation of the body then panics, before any byte of the
  body is read, so \<open>Read\<close> returns neither a response nor an error.
\<close>

theorem Read_body_huge_length_counterexample:
  "Atoi ''9223372036854775807'' = Some 9223372036854775807 \<and>
   Read_loop zeroResponse 0
     \<lparr>rd = ''Content-Type: command/reply\<newline>Content-Length: 9223372036854775807\<newline>\<newline>abc'',
      rdErr = io_EOF, wr = [], wrErr = None\<rparr>
   = (Inr (\<lparr>ContentType = ''command/reply'', Text = [], JobUUID = [], Body = []\<rparr>,
           9223372036854775807),
      \<lparr>rd = ''abc'', rdErr = io_EOF, wr = [], wrErr = None\<rparr>) \<and>
   Read
     \<lparr>rd = ''Content-Type: command/reply\<newline>Content-Length: 9223372036854775807\<newline>\<newline>abc'',
      rdErr = io_EOF, wr = [], wrErr = None\<rparr>
   = (Panics ''runtime error: makeslice: len out of range'',
      \<lparr>rd = ''abc'', rdErr = io_EOF, wr = [], wrErr = None\<rparr>)"
  by (simp add: Read_eval Atoi_def isDigit_def digit_def)

section \<open>The handshake\<close>

lemma Read_keeps_fields:
  assumes "Read c = (r, c')"
  shows "wr c' = wr c" and "wrErr c' = wrErr c" and "rdErr c' = rdErr c"
proof -
  from Read_keeps [OF assms] have "c' = c\<lparr>rd := rd c'\<rparr>" .
  then show "wr c' = wr c" and "wrErr c' = wrErr c" and "rdErr c' = rdErr c"
    by (metis Conn.select_convs Conn.surjective Conn.update_convs(1))+
qed

lemma Read_wr_update: "Read (c\<lparr>wr := w\<rparr>) = (r, c') \<Longrightarrow> wr c' = w"
  by (drule Read_keeps_fields(1)) simp

lemma Write_wr:
  assumes "Write cmd c = (e, c')"
  shows "wr c' = wr c \<or> wr c' = wr c @ cmd @ [LF, LF]"
  using assms by (auto simp: Write_def split: if_splits option.splits)

lemma Send_wr:
  assumes "Send cmd c = (r, c')"
  shows "wr c' = wr c \<or> wr c' = wr c @ cmd @ [LF, LF]"
proof -
  obtain e cw where w: "Write cmd c = (e, cw)"
    by (metis surj_pair)
  obtain r1 c1 where r: "Read cw = (r1, c1)"
    by (metis surj_pair)
  from r have "wr c1 = wr cw" by (rule Read_keeps_fields)
  moreover from assms w r have "c' = cw \<or> c' = c1"
    by (auto simp: Send_def split: option.splits prod.splits outcome.splits)
  ultimately show ?thesis
    using Write_wr [OF w] by auto
qed

text \<open>
  C2. \<open>auth\<close> reads one frame. A rude rejection fails with \<open>ErrAccessDenied\<close>, a
  disconnect notice with the wrapped \<^verbatim>\<open>io.EOF\<close> of a server disconnect, any content type
  other than the authentication request with the error that names the type. On the
  request it writes \<open>auth password\<close> and a blank line and reads one reply: a content type
  other than the command reply fails with the error that names it, a reply text that does
  not start with \<open>+OK\<close> fails with \<open>ErrInvalidPassword\<close>, and any other reply succeeds.
  Nothing is retried: whatever happens, at most that one command has been written.
\<close>

theorem auth_handshake:
  "(Read c = (Returns (resp, None), c1) \<longrightarrow>
      (ContentType resp = ctReject \<longrightarrow> auth password c = (Returns (Some ErrAccessDenied), c1)) \<and>
      (ContentType resp = ctDisconnect \<longrightarrow>
         auth password c = (Returns (Some (Wrap ''server disconnect'' io_EOF)), c1)) \<and>
      (ContentType resp \<notin> {ctReject, ctDisconnect, ctAuth} \<longrightarrow>
         auth password c = (Returns (Some (UnexpectedAuthRequestType (ContentType resp))), c1)) \<and>
      (ContentType resp = ctAuth \<and> wrErr c = None \<and>
       Read (c1\<lparr>wr := wr c @ ''auth '' @ password @ [LF, LF]\<rparr>) = (Returns (reply, None), c2) \<longrightarrow>
         wr c2 = wr c @ ''auth '' @ password @ [LF, LF] \<and>
         (ContentType reply \<noteq> ctCommandReply \<longrightarrow>
            auth password c = (Returns (Some (UnexpectedAuthResponseType (ContentType reply))), c2)) \<and>
         (ContentType reply = ctCommandReply \<and> \<not> HasPrefix (Text reply) ''+OK'' \<longrightarrow>
            auth password c = (Returns (Some ErrInvalidPassword), c2)) \<and>
         (ContentType reply = ctCommandReply \<and> HasPrefix (Text reply) ''+OK'' \<longrightarrow>
            auth password c = (Returns None, c2)))) \<and>
   (wr (snd (auth password c)) = wr c \<or>
    wr (snd (auth password c)) = wr c @ ''auth '' @ password @ [LF, LF])"
proof (intro conjI impI; (elim conjE)?)
  assume "Read c = (Returns (resp, None), c1)" "ContentType resp = ctReject"
  then show "auth password c = (Returns (Some ErrAccessDenied), c1)"
    by (simp add: auth_def)
next
  assume "Read c = (Returns (resp, None), c1)" "ContentType resp = ctDisconnect"
  then show "auth password c = (Returns (Some (Wrap ''server disconnect'' io_EOF)), c1)"
    by (simp add: auth_def ct_defs)
next
  assume "Read c = (Returns (resp, None), c1)" "ContentType resp \<notin> {ctReject, ctDisconnect, ctAuth}"
  then show "auth password c = (Returns (Some (UnexpectedAuthRequestType (ContentType resp))), c1)"
    by (simp add: auth_def)
next
  assume r1: "Read c = (Returns (resp, None), c1)" and ct: "ContentType resp = ctAuth"
    and w: "wrErr c = None"
    and r2: "Read (c1\<lparr>wr := wr c @ ''auth '' @ password @ [LF, LF]\<rparr>) = (Returns (reply, None), c2)"
  from r1 have k: "wr c1 = wr c" "wrErr c1 = None"
    using w by (auto dest: Read_keeps_fields)
  from r2 show "wr c2 = wr c @ ''auth '' @ password @ [LF, LF]"
    by (rule Read_wr_update)
  have send: "Send (''auth '' @ password) c1 = (Returns (reply, None), c2)"
    using r2 k by (simp add: Send_def Write_def)
  have a: "auth password c =
      (if ContentType reply \<noteq> ctCommandReply
       then (Returns (Some (UnexpectedAuthResponseType (ContentType reply))), c2)
       else if \<not> HasPrefix (Text reply) ''+OK'' then (Returns (Some ErrInvalidPassword), c2)
       else (Returns None, c2))"
    using r1 ct send by (simp add: auth_def ct_defs)
  show "auth password c = (Returns (Some (UnexpectedAuthResponseType (ContentType reply))), c2)"
    if "ContentType reply \<noteq> ctCommandReply"
    using that a by simp
  show "auth password c = (Returns (Some ErrInvalidPassword), c2)"
    if "ContentType reply = ctCommandReply" "\<not> HasPrefix (Text reply) ''+OK''"
    using that a by simp
  show "auth password c = (Returns None, c2)"
    if "ContentType reply = ctCommandReply" "HasPrefix (Text reply) ''+OK''"
    using that a by simp
next
  obtain r c1 where r1: "Read c = (r, c1)"
    by (metis surj_pair)
  then have k: "wr c1 = wr c" by (rule Read_keeps_fields)
  obtain r2 c2 where s: "Send (''auth '' @ password) c1 = (r2, c2)"
    by (metis surj_pair)
  from Send_wr [OF s] k
  have w2: "wr c2 = wr c \<or> wr c2 = wr c @ ''auth '' @ password @ [LF, LF]" by simp
  have "snd (auth password c) = c1 \<or> snd (auth password c) = c2"
    using r1 s by (auto simp: auth_def split: option.splits prod.splits outcome.splits)
  with k w2 show "wr (snd (auth password c)) = wr c \<or>
    wr (snd (auth password c)) = wr c @ ''auth '' @ password @ [LF, LF]"
    by auto
qed


theorem auth_handshake_witness:
  "auth ''ClueCon''
     \<lparr>rd = ''Content-Type: auth/request\<newline>\<newline>Content-Type: command/reply\<newline>Reply-Text: +OK accepted\<newline>\<newline>'',
      rdErr = io_EOF, wr = [], wrErr = None\<rparr>
   = (Returns None, \<lparr>rd = [], rdErr = io_EOF, wr = ''auth ClueCon\<newline>\<newline>'', wrErr = None\<rparr>) \<and>
   auth ''secret''
     \<lparr>rd = ''Content-Type: auth/request\<newline>\<newline>Content-Type: command/reply\<newline>Reply-Text: -ERR invalid\<newline>\<newline>'',
      rdErr = io_EOF, wr = [], wrErr = None\<rparr>
   = (Returns (Some ErrInvalidPassword),
      \<lparr>rd = [], rdErr = io_EOF, wr = ''auth secret\<newline>\<newline>'', wrErr = None\<rparr>) \<and>
   auth ''ClueCon''
     \<lparr>rd = ''Content-Type: text/rude-rejection\<newline>\<newline>'', rdErr = io_EOF, wr = [], wrErr = None\<rparr>
   = (Returns (Some ErrAccessDenied), \<lparr>rd = [], rdErr = io_EOF, wr = [], wrErr = None\<rparr>)"
proof -
  let ?req = "\<lparr>ContentType = ''auth/request'', Text = [], JobUUID = [], Body = []\<rparr>"
  let ?ok = "''Content-Type: command/reply\<newline>Reply-Text: +OK accepted\<newline>\<newline>''"
  let ?no = "''Content-Type: command/reply\<newline>Reply-Text: -ERR invalid\<newline>\<newline>''"
  have first: "Read \<lparr>rd = ''Content-Type: auth/request\<newline>\<newline>'' @ s, rdErr = io_EOF, wr = [], wrErr = None\<rparr>
      = (Returns (?req, None), \<lparr>rd = s, rdErr = io_EOF, wr = [], wrErr = None\<rparr>)" for s
    by (simp add: Read_eval)
  have ok: "Read (\<lparr>rd = ?ok, rdErr = io_EOF, wr = [], wrErr = None\<rparr>
        \<lparr>wr := wr \<lparr>rd = ''Content-Type: auth/request\<newline>\<newline>'' @ ?ok, rdErr = io_EOF, wr = [], wrErr = None\<rparr>
            @ ''auth '' @ ''ClueCon'' @ [LF, LF]\<rparr>)
      = (Returns (\<lparr>ContentType = ''command/reply'', Text = ''+OK accepted'', JobUUID = [], Body = []\<rparr>, None),
         \<lparr>rd = [], rdErr = io_EOF, wr = ''auth ClueCon\<newline>\<newline>'', wrErr = None\<rparr>)"
    by (simp add: Read_eval)
  have no: "Read (\<lparr>rd = ?no, rdErr = io_EOF, wr = [], wrErr = None\<rparr>
        \<lparr>wr := wr \<lparr>rd = ''Content-Type: auth/request\<newline>\<newline>'' @ ?no, rdErr = io_EOF, wr = [], wrErr = None\<rparr>
            @ ''auth '' @ ''secret'' @ [LF, LF]\<rparr>)
      = (Returns (\<lparr>ContentType = ''command/reply'', Text = ''-ERR invalid'', JobUUID = [], Body = []\<rparr>, None),
         \<lparr>rd = [], rdErr = io_EOF, wr = ''auth secret\<newline>\<newline>'', wrErr = None\<rparr>)"
    by (simp add: Read_eval)
  have reject: "Read \<lparr>rd = ''Content-Type: text/rude-rejection\<newline>\<newline>'', rdErr = io_EOF, wr = [], wrErr = None\<rparr>
      = (Returns (\<lparr>ContentType = ''text/rude-rejection'', Text = [], JobUUID = [], Body = []\<rparr>, None),
         \<lparr>rd = [], rdErr = io_EOF, wr = [], wrErr = None\<rparr>)"
    by (simp add: Read_eval)
  from auth_handshake [where password = "''ClueCon''", THEN conjunct1, rule_format, OF first [of ?ok],
      THEN conjunct2, THEN conjunct2, THEN conjunct2, rule_format, OF conjI [OF _ conjI [OF _ ok]]]
  have 1: "auth ''ClueCon'' \<lparr>rd = ''Content-Type: auth/request\<newline>\<newline>'' @ ?ok, rdErr = io_EOF, wr = [], wrErr = None\<rparr>
      = (Returns None, \<lparr>rd = [], rdErr = io_EOF, wr = ''auth ClueCon\<newline>\<newline>'', wrErr = None\<rparr>)"
    by (simp add: ct_defs HasPrefix_def LF_def)
  from auth_handshake [where password = "''secret''", THEN conjunct1, rule_format, OF first [of ?no],
      THEN conjunct2, THEN conjunct2, THEN conjunct2, rule_format, OF conjI [OF _ conjI [OF _ no]]]
  have 2: "auth ''secret'' \<lparr>rd = ''Content-Type: auth/request\<newline>\<newline>'' @ ?no, rdErr = io_EOF, wr = [], wrErr = None\<rparr>
      = (Returns (Some ErrInvalidPassword), \<lparr>rd = [], rdErr = io_EOF, wr = ''auth secret\<newline>\<newline>'', wrErr = None\<rparr>)"
    by (simp add: ct_defs HasPrefix_def LF_def)
  from auth_handshake [where password = "''ClueCon''", THEN conjunct1, rule_format, OF reject]
  have 3: "auth ''ClueCon'' \<lparr>rd = ''Content-Type: text/rude-rejection\<newline>\<newline>'', rdErr = io_EOF, wr = [], wrErr = None\<rparr>
      = (Returns (Some ErrAccessDenied), \<lparr>rd = [], rdErr = io_EOF, wr = [], wrErr = None\<rparr>)"
    by (simp add: ct_defs)
  from 1 2 3 show ?thesis by simp
qed

section \<open>Events from bodies\<close>

lemma unquote_step_plain:
  "0x20 \<le> (of_char ch :: nat) \<Longrightarrow> (of_char ch :: nat) < 0x80 \<Longrightarrow> ch \<noteq> CHR 0x5C \<Longrightarrow>
   unquote_step (ch # t) = Some ([ch], 1)"
  by (simp add: unquote_step_def)

lemma json_string_plain:
  "plain s \<Longrightarrow> json_string acc (s @ CHR 0x22 # rest) = Some (acc @ s, rest)"
proof (induction s arbitrary: acc)
  case Nil
  then show ?case by (simp add: json_string.simps)
next
  case (Cons ch s)
  then have ch: "0x20 \<le> (of_char ch :: nat)" "(of_char ch :: nat) < 0x80" "ch \<noteq> CHR 0x5C"
    "ch \<noteq> CHR 0x22" and s: "plain s"
    by (simp_all add: plain_def)
  from Cons.IH [OF s, of "acc @ [ch]"] show ?case
    by (subst json_string.simps) (simp add: unquote_step_plain ch)
qed

lemma json_value_quoted:
  "plain v \<Longrightarrow> json_value (quoted v @ rest) = Some (v, rest)"
  by (simp add: json_value_def quoted_def json_string_plain)

lemma skipSpace_nonspace: "\<not> isSpace ch \<Longrightarrow> skipSpace (ch # s) = ch # s"
  by (simp add: skipSpace_def)

lemma skipSpace_quoted [simp]: "skipSpace (quoted s @ rest) = quoted s @ rest"
  by (simp add: quoted_def skipSpace_def isSpace_def)

lemma json_members_one:
  assumes "plain k" and "plain v"
  shows "json_members m (quoted k @ CHR '':'' # quoted v @ CHR '','' # rest) =
      json_members (m(k \<mapsto> v)) (skipSpace rest)"
    and "json_members m (quoted k @ CHR '':'' # quoted v @ CHR ''}'' # rest) =
      Some (m(k \<mapsto> v), rest)"
proof -
  have ks: "json_string [] (k @ CHR 0x22 # CHR '':'' # quoted v @ ch # rest) =
      Some (k, CHR '':'' # quoted v @ ch # rest)" for ch
    using json_string_plain [OF assms(1), of "[]"] by simp
  have sk: "skipSpace (CHR '':'' # t) = CHR '':'' # t"
    "skipSpace (CHR '','' # t) = CHR '','' # t"
    "skipSpace (CHR ''}'' # t) = CHR ''}'' # t" for t
    by (simp_all add: skipSpace_def isSpace_def)
  show "json_members m (quoted k @ CHR '':'' # quoted v @ CHR '','' # rest) =
      json_members (m(k \<mapsto> v)) (skipSpace rest)"
    by (subst json_members.simps)
      (simp add: quoted_def [of k] ks sk json_value_quoted [OF assms(2)])
  show "json_members m (quoted k @ CHR '':'' # quoted v @ CHR ''}'' # rest) =
      Some (m(k \<mapsto> v), rest)"
    by (subst json_members.simps)
      (simp add: quoted_def [of k] ks sk json_value_quoted [OF assms(2)])
qed

lemma members_not_Nil: "kvs \<noteq> [] \<Longrightarrow> members kvs \<noteq> []"
  by (induction kvs rule: members.induct) (simp_all add: quoted_def)

lemma members_head: "kvs \<noteq> [] \<Longrightarrow> \<exists>t. members kvs = CHR 0x22 # t"
  by (induction kvs rule: members.induct) (simp_all add: quoted_def)

lemma skipSpace_members [simp]:
  "skipSpace (members kvs @ CHR ''}'' # rest) = members kvs @ CHR ''}'' # rest"
proof (cases "kvs = []")
  case True
  then show ?thesis by (simp add: skipSpace_def isSpace_def)
next
  case False
  then obtain t where "members kvs = CHR 0x22 # t" using members_head by blast
  then show ?thesis by (simp add: skipSpace_def isSpace_def)
qed

lemma json_members_members:
  "kvs \<noteq> [] \<Longrightarrow> \<forall>(k, v)\<in>set kvs. plain k \<and> plain v \<Longrightarrow>
   json_members m (members kvs @ CHR ''}'' # rest) = Some (m ++ map_of (rev kvs), rest)"
proof (induction kvs arbitrary: m rule: members.induct)
  case 1
  then show ?case by simp
next
  case (2 k v)
  then have "plain k" "plain v" by simp_all
  from json_members_one(2) [OF this, of m rest] show ?case
    by (simp add: fun_eq_iff map_add_def)
next
  case (3 k v kv kvs)
  then have p: "plain k" "plain v" by simp_all
  have IH: "json_members (m(k \<mapsto> v)) (members (kv # kvs) @ CHR ''}'' # rest) =
      Some (m(k \<mapsto> v) ++ map_of (rev (kv # kvs)), rest)"
    using "3.prems" by (intro "3.IH") simp_all
  have m: "m(k \<mapsto> v) ++ map_of (rev (kv # kvs)) = m ++ map_of (rev ((k, v) # kv # kvs))"
    by (simp add: map_add_upd_left fun_eq_iff map_add_def split: option.splits)
  have "json_members m (members ((k, v) # kv # kvs) @ CHR ''}'' # rest)
      = json_members (m(k \<mapsto> v)) (skipSpace (members (kv # kvs) @ CHR ''}'' # rest))"
    using json_members_one(1) [OF p, of m "members (kv # kvs) @ CHR ''}'' # rest"] by simp
  also have "\<dots> = Some (m(k \<mapsto> v) ++ map_of (rev (kv # kvs)), rest)"
    using IH by (simp only: skipSpace_members)
  finally show ?case by (simp only: m)
qed

lemma json_Unmarshal_object:
  assumes "\<forall>(k, v)\<in>set kvs. plain k \<and> plain v"
  shows "json_Unmarshal (object kvs) = Inr (Event (map_of (rev kvs)))"
proof (cases "kvs = []")
  case True
  then show ?thesis
    by (simp add: json_Unmarshal_def object_def skipSpace_def isSpace_def)
next
  case False
  then obtain t where t: "members kvs = CHR 0x22 # t" using members_head by blast
  have sk: "skipSpace (CHR 0x22 # t @ ''}'') = CHR 0x22 # t @ ''}''"
    by (simp add: skipSpace_def isSpace_def)
  have "json_members Map.empty (CHR 0x22 # t @ ''}'') = Some (map_of (rev kvs), [])"
    using json_members_members [OF False assms, of Map.empty "[]"] t by simp
  then show ?thesis
    using t sk
    by (simp add: json_Unmarshal_def object_def skipSpace_nonspace isSpace_def
        skipSpace_def [of "[]"])
qed

lemma length_members: "(k, v) \<in> set kvs \<Longrightarrow> length v < length (members kvs)"
  by (induction kvs rule: members.induct) (auto simp: quoted_def)

text \<open>
  C9, amended. The event of a decoded body holds the members of the JSON object and
  nothing else: for an object of plain members each key has the value of its last member,
  and \<open>Body()\<close> returns the value of the member \<open>_body\<close>, or the empty string when the
  object has none, never the text of the body itself. When the decoder fails,
  \<open>parseEvent\<close> returns the nil event and the wrapped error.
\<close>

theorem parseEvent_members:
  "((\<forall>(k, v)\<in>set kvs. plain k \<and> plain v) \<longrightarrow>
      parseEvent (object kvs) = (Event (map_of (rev kvs)), None) \<and>
      EventBody (fst (parseEvent (object kvs))) =
        (case map_of (rev kvs) ''_body'' of None \<Rightarrow> [] | Some v \<Rightarrow> v) \<and>
      EventBody (fst (parseEvent (object kvs))) \<noteq> object kvs) \<and>
   (json_Unmarshal body = Inr event \<longrightarrow> parseEvent body = (event, None)) \<and>
   (json_Unmarshal body = Inl err \<longrightarrow>
      parseEvent body = (NilEvent, Some (Wrap ''parse event'' err)))"
proof (intro conjI impI)
  assume p: "\<forall>(k, v)\<in>set kvs. plain k \<and> plain v"
  then show pe: "parseEvent (object kvs) = (Event (map_of (rev kvs)), None)"
    by (simp add: parseEvent_def json_Unmarshal_object)
  then show eb: "EventBody (fst (parseEvent (object kvs))) =
      (case map_of (rev kvs) ''_body'' of None \<Rightarrow> [] | Some v \<Rightarrow> v)"
    by (simp add: EventBody_def bodyKey_def)
  show "EventBody (fst (parseEvent (object kvs))) \<noteq> object kvs"
  proof (cases "map_of (rev kvs) ''_body''")
    case None
    with eb show ?thesis by (simp add: object_def)
  next
    case (Some v)
    then have "(''_body'', v) \<in> set kvs" by (auto dest: map_of_SomeD)
    then have "length v < length (object kvs)"
      by (auto simp: object_def dest: length_members)
    with eb Some show ?thesis by auto
  qed
next
  assume "json_Unmarshal body = Inr event"
  then show "parseEvent body = (event, None)" by (simp add: parseEvent_def)
next
  assume "json_Unmarshal body = Inl err"
  then show "parseEvent body = (NilEvent, Some (Wrap ''parse event'' err))"
    by (simp add: parseEvent_def)
qed

lemmas json_eval =
  parseEvent_def json_Unmarshal_def json_members.simps json_value_def json_string.simps
  unquote_step_def skipSpace_def isSpace_def Let_def

theorem parseEvent_members_witness:
  \<open>parseEvent ''{"Event-Name":"CUSTOM","Event-Subclass":"conference::maintenance","_body":"hi"}''
   = (Event [''Event-Name'' \<mapsto> ''CUSTOM'', ''Event-Subclass'' \<mapsto> ''conference::maintenance'',
             ''_body'' \<mapsto> ''hi''], None) \<and>
   EventBody (fst (parseEvent
     ''{"Event-Name":"CUSTOM","Event-Subclass":"conference::maintenance","_body":"hi"}'')) = ''hi'' \<and>
   parseEvent ''Event-Name: HEARTBEAT'' = (NilEvent, Some (Wrap ''parse event'' JSONError))\<close>
proof -
  let ?kvs = "[(''Event-Name'', ''CUSTOM''), (''Event-Subclass'', ''conference::maintenance''),
    (''_body'', ''hi'')]"
  have p: "\<forall>(k, v)\<in>set ?kvs. plain k \<and> plain v" by (simp add: plain_def)
  have o: \<open>object ?kvs =
      ''{"Event-Name":"CUSTOM","Event-Subclass":"conference::maintenance","_body":"hi"}''\<close>
    by (simp add: object_def quoted_def)
  have m: "map_of (rev ?kvs) = [''Event-Name'' \<mapsto> ''CUSTOM'',
      ''Event-Subclass'' \<mapsto> ''conference::maintenance'', ''_body'' \<mapsto> ''hi'']"
    by (simp add: fun_eq_iff)
  have f: "json_Unmarshal ''Event-Name: HEARTBEAT'' = Inl JSONError"
    by (simp add: json_Unmarshal_def skipSpace_def isSpace_def)
  from parseEvent_members [of ?kvs "''Event-Name: HEARTBEAT''" _ JSONError] p f
  show ?thesis unfolding o m by (simp add: EventBody_def bodyKey_def)
qed

text \<open>
  C9 as stated fails: no body key is added. The body \<open>{"Event-Name":"HEARTBEAT"}\<close> is
  decoded into an event with the one key \<open>Event-Name\<close>; the key \<open>_body\<close> is absent and
  \<open>Body()\<close> returns the empty string, not the body that was decoded.
\<close>

theorem parseEvent_body_counterexample:
  \<open>parseEvent ''{"Event-Name":"HEARTBEAT"}'' = (Event [''Event-Name'' \<mapsto> ''HEARTBEAT''], None) \<and>
   [''Event-Name'' \<mapsto> ''HEARTBEAT''] ''_body'' = None \<and>
   EventBody (fst (parseEvent ''{"Event-Name":"HEARTBEAT"}'')) = [] \<and>
   EventBody (fst (parseEvent ''{"Event-Name":"HEARTBEAT"}'')) \<noteq> ''{"Event-Name":"HEARTBEAT"}''\<close>
  by (simp add: json_eval EventBody_def bodyKey_def)

section \<open>The streaming loop\<close>

lemma Run_loop_read_error:
  "Read c = (Returns (resp, Some err), c') \<Longrightarrow>
   Run_loop cause subscribers cs c =
     (case cause of
        Some cerr \<Rightarrow> (Returns (Wrap ''done'' cerr), cs, c')
      | None \<Rightarrow> (Returns (Wrap ''read'' err), cs, c'))"
  by (subst Run_loop.simps) simp

lemma Run_loop_panic:
  "Read c = (Panics p, c') \<Longrightarrow> Run_loop cause subscribers cs c = (Panics p, cs, c')"
  by (subst Run_loop.simps) simp

lemma Run_loop_errors:
  "fst (Run_loop cause subscribers cs c) \<in>
     (case cause of
        Some cerr \<Rightarrow> {Returns (Wrap ''done'' cerr)}
      | None \<Rightarrow> {e. \<exists>err. e = Returns (Wrap ''read'' err)}) \<union>
     {e. \<exists>err. e = Returns (Wrap ''event parse'' err)} \<union>
     {Returns (Wrap ''server closed'' io_EOF)} \<union> {e. \<exists>p. e = Panics p}"
proof (induction "length (rd c)" arbitrary: cs c rule: less_induct)
  case less
  let ?S = "(case cause of
        Some cerr \<Rightarrow> {Returns (Wrap ''done'' cerr)}
      | None \<Rightarrow> {e. \<exists>err. e = Returns (Wrap ''read'' err)}) \<union>
     {e. \<exists>err. e = Returns (Wrap ''event parse'' err)} \<union>
     {Returns (Wrap ''server closed'' io_EOF)} \<union> {e. \<exists>p. e = Panics p}"
  obtain out c' where r: "Read c = (out, c')"
    by (metis surj_pair)
  show ?case
  proof (cases out)
    case (Panics p)
    with r show ?thesis by (simp add: Run_loop_panic)
  next
    case (Returns res)
    obtain resp err where res: "res = (resp, err)" by (cases res) auto
    show ?thesis
    proof (cases err)
      case (Some e)
      with r Returns res show ?thesis
        by (auto simp: Run_loop_read_error split: option.splits)
    next
      case None
      with r Returns res have "length (rd c') < length (rd c)" by (auto dest: Read_consumes)
      then have IH: "fst (Run_loop cause subscribers cs' c') \<in> ?S" for cs'
        by (rule less.hyps)
      obtain event perr where p: "parseEvent (Body resp) = (event, perr)"
        by (metis surj_pair)
      have "Run_loop cause subscribers cs c =
          (if ContentType resp = ''text/event-plain'' then
             (case perr of
                Some err \<Rightarrow> (Returns (Wrap ''event parse'' err), cs, c')
              | None \<Rightarrow>
                  Run_loop cause subscribers
                    (foldl (\<lambda>cs subscriber. snd (Handle subscriber event cs)) cs subscribers) c')
           else if ContentType resp = ''text/disconnect-notice''
             then (Returns (Wrap ''server closed'' io_EOF), cs, c')
           else Run_loop cause subscribers cs c')"
        using r Returns res None p by (subst Run_loop.simps) (simp split: option.splits)
      then have
        "Run_loop cause subscribers cs c = (Returns (Wrap ''server closed'' io_EOF), cs, c') \<or>
         (\<exists>e. Run_loop cause subscribers cs c = (Returns (Wrap ''event parse'' e), cs, c')) \<or>
         (\<exists>cs'. Run_loop cause subscribers cs c = Run_loop cause subscribers cs' c')"
        by (cases perr) auto
      then show ?thesis
      proof (elim disjE exE)
        assume "Run_loop cause subscribers cs c = (Returns (Wrap ''server closed'' io_EOF), cs, c')"
        then show ?thesis by simp
      next
        fix e
        assume "Run_loop cause subscribers cs c = (Returns (Wrap ''event parse'' e), cs, c')"
        then show ?thesis by simp
      next
        fix cs'
        assume "Run_loop cause subscribers cs c = Run_loop cause subscribers cs' c'"
        then show ?thesis using IH [of cs'] by simp
      qed
    qed
  qed
qed

text \<open>
  C5. When a read of the streaming loop fails, the loop returns the recorded cause of
  the cancellation wrapped as \<open>done\<close> if the context is cancelled, whatever the read
  error is, and the read error wrapped as \<open>read\<close> if it is not. So a loop run under a
  cancelled context never returns a read error, and a loop run under a live context never
  returns a cancellation.
\<close>

theorem Run_loop_read_failure:
  "(Read c = (Returns (resp, Some err), c') \<longrightarrow>
      Run_loop (Some cerr) subscribers cs c = (Returns (Wrap ''done'' cerr), cs, c') \<and>
      Run_loop None subscribers cs c = (Returns (Wrap ''read'' err), cs, c')) \<and>
   fst (Run_loop (Some cerr) subscribers cs c) \<noteq> Returns (Wrap ''read'' e) \<and>
   fst (Run_loop None subscribers cs c) \<noteq> Returns (Wrap ''done'' e)"
proof (intro conjI impI)
  assume "Read c = (Returns (resp, Some err), c')"
  then show "Run_loop (Some cerr) subscribers cs c = (Returns (Wrap ''done'' cerr), cs, c')"
    and "Run_loop None subscribers cs c = (Returns (Wrap ''read'' err), cs, c')"
    by (simp_all add: Run_loop_read_error)
next
  show "fst (Run_loop (Some cerr) subscribers cs c) \<noteq> Returns (Wrap ''read'' e)"
    using Run_loop_errors [of "Some cerr" subscribers cs c] by auto
next
  show "fst (Run_loop None subscribers cs c) \<noteq> Returns (Wrap ''done'' e)"
    using Run_loop_errors [of None subscribers cs c] by auto
qed

theorem Run_loop_read_failure_witness:
  "Run_loop (Some (errors_New ''the end'')) [] (\<lambda>_. [])
      \<lparr>rd = [], rdErr = Transport ''use of closed network connection'', wr = [], wrErr = None\<rparr>
   = (Returns (Wrap ''done'' (errors_New ''the end'')), \<lambda>_. [],
      \<lparr>rd = [], rdErr = Transport ''use of closed network connection'', wr = [], wrErr = None\<rparr>) \<and>
   Run_loop None [] (\<lambda>_. [])
      \<lparr>rd = [], rdErr = Transport ''use of closed network connection'', wr = [], wrErr = None\<rparr>
   = (Returns (Wrap ''read'' (Transport ''use of closed network connection'')), \<lambda>_. [],
      \<lparr>rd = [], rdErr = Transport ''use of closed network connection'', wr = [], wrErr = None\<rparr>)"
proof -
  let ?c = "\<lparr>rd = [], rdErr = Transport ''use of closed network connection'', wr = [],
    wrErr = None\<rparr>"
  have r: "Read ?c =
      (Returns (zeroResponse, Some (Transport ''use of closed network connection'')), ?c)"
    by (simp add: Read_def Read_from_def Read_loop_end)
  from Run_loop_read_failure [of ?c zeroResponse "Transport ''use of closed network connection''"
      ?c "errors_New ''the end''" "[]" "\<lambda>_. []"] r
  show ?thesis by simp
qed

lemma Run_loop_example:
  \<open>Run_loop (Some (errors_New ''the end''))
      [\<lparr>Names = {''HEARTBEAT''}, Send = 1\<rparr>, \<lparr>Names = {''RE_SCHEDULE''}, Send = 2\<rparr>,
       \<lparr>Names = {}, Send = 3\<rparr>]
      (\<lambda>_. [])
      \<lparr>rd = ''Content-Length: 26\<newline>Content-Type: text/event-plain\<newline>\<newline>{"Event-Name":"HEARTBEAT"}'',
        rdErr = io_EOF, wr = [], wrErr = None\<rparr>
   = (Returns (Wrap ''done'' (errors_New ''the end'')),
      (\<lambda>_. [])(1 := [Event [''Event-Name'' \<mapsto> ''HEARTBEAT'']],
                3 := [Event [''Event-Name'' \<mapsto> ''HEARTBEAT'']]),
      \<lparr>rd = [], rdErr = io_EOF, wr = [], wrErr = None\<rparr>)\<close>
  by (simp add: Run_loop.simps Read_eval Atoi_def isDigit_def digit_def json_eval
      Handle_def chan_send_def Name_def eventSubclassKey_def eventNameKey_def)

end
